theory Spec2Isabelle
  imports Complex_Main "HOL-Library.Multiset" "HOL-Library.AList"
begin


text \<open>
  A model of \<open>PythonProject.py\<close>: the class \<open>SortVisualizer\<close> with the Tk canvas it
  draws on, and the two start requests of \<open>StudentApp\<close>. Methods take the state and
  return the new one; a method that can raise returns \<open>error + visualizer\<close>.
\<close>

section \<open>Data model\<close>

text \<open>
  A row of the \<open>students\<close> table as \<open>fetch_all\<close> returns it: \<open>(id, name, roll, marks)\<close>.
  The visualizer reads \<open>d[1]\<close> (the name) and \<open>d[3]\<close> (the marks, the sort key).
\<close>

record student =
  student_id :: int
  name :: string
  roll :: string
  marks :: int

text \<open>Exceptions the visualizer code can raise: list indexing out of range.\<close>

datatype error = IndexError

subsection \<open>The Tk canvas\<close>

text \<open>
  A canvas item has a coordinate list (four numbers for a rectangle, two for a text),
  a fill colour and a text (empty for a rectangle). Coordinates are exact rationals
  here; the source computes them in floating point. The canvas maps item ids to
  items and hands out fresh ids in sequence.
\<close>

record item =
  coords :: "rat list"
  fill :: string
  item_text :: string

record canvas =
  items :: "(nat \<times> item) list"
  next_id :: nat

definition canvas_delete_all :: "canvas \<Rightarrow> canvas" where
  "canvas_delete_all c = c\<lparr>items := []\<rparr>"

definition canvas_create :: "item \<Rightarrow> canvas \<Rightarrow> nat \<times> canvas" where
  "canvas_create it c =
     (next_id c, c\<lparr>items := items c @ [(next_id c, it)], next_id := Suc (next_id c)\<rparr>)"

definition create_rectangle :: "rat \<Rightarrow> rat \<Rightarrow> rat \<Rightarrow> rat \<Rightarrow> string \<Rightarrow> canvas \<Rightarrow> nat \<times> canvas" where
  "create_rectangle x0 y0 x1 y1 col c =
     canvas_create \<lparr>coords = [x0, y0, x1, y1], fill = col, item_text = []\<rparr> c"

definition create_text :: "rat \<Rightarrow> rat \<Rightarrow> string \<Rightarrow> string \<Rightarrow> canvas \<Rightarrow> nat \<times> canvas" where
  "create_text x y txt col c = canvas_create \<lparr>coords = [x, y], fill = col, item_text = txt\<rparr> c"

text \<open>\<open>canvas.coords(h)\<close>: the coordinate list, empty for an id that is not on the canvas.\<close>

definition canvas_coords :: "canvas \<Rightarrow> nat \<Rightarrow> rat list" where
  "canvas_coords c h = (case map_of (items c) h of None \<Rightarrow> [] | Some it \<Rightarrow> coords it)"

fun shift :: "rat \<Rightarrow> rat \<Rightarrow> rat list \<Rightarrow> rat list" where
  "shift dx dy (x # y # rest) = (x + dx) # (y + dy) # shift dx dy rest"
| "shift dx dy rest = rest"

text \<open>\<open>canvas.move(h, dx, dy)\<close> and \<open>canvas.itemconfig(h, fill=col)\<close>; both do nothing for
  an id that is not on the canvas.\<close>

definition canvas_move :: "nat \<Rightarrow> rat \<Rightarrow> rat \<Rightarrow> canvas \<Rightarrow> canvas" where
  "canvas_move h dx dy c =
     c\<lparr>items := AList.map_entry h (\<lambda>it. it\<lparr>coords := shift dx dy (coords it)\<rparr>) (items c)\<rparr>"

definition canvas_itemconfig :: "nat \<Rightarrow> string \<Rightarrow> canvas \<Rightarrow> canvas" where
  "canvas_itemconfig h col c =
     c\<lparr>items := AList.map_entry h (\<lambda>it. it\<lparr>fill := col\<rparr>) (items c)\<rparr>"

subsection \<open>The visualizer state\<close>

text \<open>
  What \<open>canvas.update()\<close> puts on the screen, together with the bookkeeping lists at
  that moment: one snapshot per redraw.
\<close>

record snapshot =
  shown_items :: "(nat \<times> item) list"
  shown_data :: "student list"
  shown_bars :: "nat list"
  shown_texts :: "(nat \<times> nat) list"

text \<open>
  The fields of \<open>SortVisualizer\<close>, and three fields for what the class does to its
  surroundings: \<open>tick\<close> counts the reads of the \<open>running\<close> flag, \<open>frames\<close> is the
  sequence of redraws and \<open>progress\<close> the sequence of \<open>callback(self.data)\<close> calls.
  The speed slider only sets the length of the pauses, which are not modelled.
\<close>

record visualizer =
  canvas :: canvas
  data :: "student list"
  bar_items :: "nat list"
  text_items :: "(nat \<times> nat) list"
  width :: int
  height :: int
  padding :: int
  running :: bool
  tick :: nat
  frames :: "snapshot list"
  progress :: "student list list"

definition init_visualizer :: "int \<Rightarrow> int \<Rightarrow> visualizer" where
  "init_visualizer w h =
     \<lparr>canvas = \<lparr>items = [], next_id = 1\<rparr>, data = [], bar_items = [], text_items = [],
      width = w, height = h, padding = 40, running = False,
      tick = 0, frames = [], progress = []\<rparr>"

definition redraw :: "visualizer \<Rightarrow> visualizer" where
  "redraw v =
     v\<lparr>frames := frames v @
        [\<lparr>shown_items = items (canvas v), shown_data = data v,
          shown_bars = bar_items v, shown_texts = text_items v\<rparr>]\<rparr>"

section \<open>Loading\<close>

text \<open>Python's \<open>str\<close> on an integer.\<close>

definition digit_char :: "nat \<Rightarrow> char" where
  "digit_char d = char_of (48 + d)"

fun str_nat :: "nat \<Rightarrow> string" where
  "str_nat n = (if n < 10 then [digit_char n] else str_nat (n div 10) @ [digit_char (n mod 10)])"

definition str_int :: "int \<Rightarrow> string" where
  "str_int i = (if i < 0 then CHR ''-'' # str_nat (nat (- i)) else str_nat (nat i))"

text \<open>\<open>max(d[3] for d in self.data) if any(d[3] is not None for d in self.data) else 1\<close>;
  the marks column is \<open>INTEGER NOT NULL\<close>, so \<open>any\<close> fails only on the empty list.\<close>

definition max_val :: "student list \<Rightarrow> int" where
  "max_val ds = (if ds = [] then 1 else Max (set (map marks ds)))"

definition bar_height :: "int \<Rightarrow> int \<Rightarrow> int \<Rightarrow> rat" where
  "bar_height h mx m = (if mx > 0 then (of_int m / of_int mx) * of_int (h - 100) else 10)"

text \<open>The body of \<open>for i, d in enumerate(self.data)\<close>.\<close>

fun draw_bars :: "rat \<Rightarrow> int \<Rightarrow> (nat \<times> student) list \<Rightarrow> visualizer \<Rightarrow> visualizer" where
  "draw_bars bar_width mx [] v = v"
| "draw_bars bar_width mx ((i, d) # rest) v =
     (let x0 = of_int (padding v) + of_nat i * (bar_width + 10);
          y1 = of_int (height v - 40);
          y0 = y1 - bar_height (height v) mx (marks d);
          (rect, c1) = create_rectangle x0 y0 (x0 + bar_width) y1 ''#2b7a78'' (canvas v);
          (txt, c2) = create_text (x0 + bar_width / 2) (y0 - 15) (str_int (marks d)) ''white'' c1;
          (name_text, c3) = create_text (x0 + bar_width / 2) (y1 + 10) (name d) ''white'' c2
      in draw_bars bar_width mx rest
           (v\<lparr>canvas := c3, bar_items := bar_items v @ [rect],
              text_items := text_items v @ [(txt, name_text)]\<rparr>))"

definition load_data :: "student list \<Rightarrow> visualizer \<Rightarrow> visualizer" where
  "load_data data_list v =
     (let v1 = v\<lparr>canvas := canvas_delete_all (canvas v), bar_items := [], text_items := [],
                 data := data_list\<rparr>;
          n = length (data v1)
      in if n = 0 then v1
         else
           let mx = max_val (data v1);
               total_gap = (int n - 1) * 10;
               available_width = max 100 (width v1 - 2 * padding v1);
               bar_width = max 10 (of_int (available_width - total_gap) / of_nat n)
           in redraw (draw_bars bar_width mx (enumerate 0 (data v1)) v1))"

section \<open>Animation\<close>

text \<open>\<open>get_speed\<close>, as a function of the slider value it reads.\<close>

definition get_speed :: "real \<Rightarrow> real" where
  "get_speed val = max 0.001 ((101 - val) / 700)"

text \<open>The loop of \<open>move_bar\<close>: \<open>k\<close> iterations are left. Reading \<open>text_items[index]\<close> raises
  when that list is shorter than \<open>bar_items\<close>.\<close>

fun move_steps :: "nat \<Rightarrow> nat \<Rightarrow> rat \<Rightarrow> rat \<Rightarrow> visualizer \<Rightarrow> error + visualizer" where
  "move_steps 0 index sx sy v = Inr v"
| "move_steps (Suc k) index sx sy v =
     (let c1 = canvas_move (bar_items v ! index) sx sy (canvas v)
      in if length (text_items v) \<le> index then Inl IndexError
         else
           let (t, n) = text_items v ! index;
               c2 = canvas_move t sx sy c1;
               c3 = canvas_move n sx sy c2
           in move_steps k index sx sy (redraw (v\<lparr>canvas := c3\<rparr>)))"

definition move_bar :: "int \<Rightarrow> rat \<Rightarrow> rat \<Rightarrow> nat \<Rightarrow> visualizer \<Rightarrow> error + visualizer" where
  "move_bar index dx dy steps v =
     (if index < 0 \<or> index \<ge> int (length (bar_items v)) then Inr v
      else move_steps steps (nat index) (dx / of_nat steps) (dy / of_nat steps) v)"

text \<open>Sequencing of calls that may raise.\<close>

definition bind :: "error + 'a \<Rightarrow> ('a \<Rightarrow> error + 'b) \<Rightarrow> error + 'b" where
  "bind m f = (case m of Inl e \<Rightarrow> Inl e | Inr x \<Rightarrow> f x)"

text \<open>The three tuple assignments at the end of \<open>swap_bars\<close>, then the redraw. Each reads
  both of its elements before it writes, so a list that is too short raises first.\<close>

definition swap_lists :: "nat \<Rightarrow> nat \<Rightarrow> visualizer \<Rightarrow> error + visualizer" where
  "swap_lists i j v =
     (let v1 = v\<lparr>bar_items := (bar_items v)[i := bar_items v ! j, j := bar_items v ! i]\<rparr>
      in if length (text_items v1) \<le> i \<or> length (text_items v1) \<le> j then Inl IndexError
         else
           let v2 = v1\<lparr>text_items := (text_items v1)[i := text_items v1 ! j, j := text_items v1 ! i]\<rparr>
           in if length (data v2) \<le> i \<or> length (data v2) \<le> j then Inl IndexError
              else Inr (redraw
                     (v2\<lparr>data := (data v2)[i := data v2 ! j, j := data v2 ! i]\<rparr>)))"

definition swap_bars :: "int \<Rightarrow> int \<Rightarrow> visualizer \<Rightarrow> error + visualizer" where
  "swap_bars i j v =
     (if i = j then Inr v
      else if \<not> (0 \<le> i \<and> i < int (length (bar_items v)) \<and> 0 \<le> j \<and> j < int (length (bar_items v)))
      then Inr v
      else
        let coords_i = canvas_coords (canvas v) (bar_items v ! nat i);
            coords_j = canvas_coords (canvas v) (bar_items v ! nat j)
        in if coords_i = [] \<or> coords_j = [] then Inr v
           else
             let x1 = coords_i ! 0; x2 = coords_j ! 0; dx = x2 - x1
             in bind (move_bar i 0 (- 30) 20 v) (\<lambda>v.
                bind (move_bar j 0 (- 30) 20 v) (\<lambda>v.
                bind (move_bar i dx 0 20 v) (\<lambda>v.
                bind (move_bar j (- dx) 0 20 v) (\<lambda>v.
                bind (move_bar i 0 30 20 v) (\<lambda>v.
                bind (move_bar j 0 30 20 v) (\<lambda>v.
                swap_lists (nat i) (nat j) v)))))))"

fun highlight_loop :: "int list \<Rightarrow> string \<Rightarrow> visualizer \<Rightarrow> visualizer" where
  "highlight_loop [] color v = v"
| "highlight_loop (i # indices) color v =
     highlight_loop indices color
       (if 0 \<le> i \<and> i < int (length (bar_items v))
        then v\<lparr>canvas := canvas_itemconfig (bar_items v ! nat i) color (canvas v)\<rparr>
        else v)"

definition highlight :: "int list \<Rightarrow> string \<Rightarrow> visualizer \<Rightarrow> visualizer" where
  "highlight indices color v = redraw (highlight_loop indices color v)"

text \<open>\<open>reset_colors\<close> catches \<open>TclError\<close>, which a canvas that exists never raises.\<close>

fun reset_loop :: "nat list \<Rightarrow> visualizer \<Rightarrow> visualizer" where
  "reset_loop [] v = v"
| "reset_loop (i # rest) v =
     reset_loop rest (v\<lparr>canvas := canvas_itemconfig (bar_items v ! i) ''#2b7a78'' (canvas v)\<rparr>)"

definition reset_colors :: "visualizer \<Rightarrow> visualizer" where
  "reset_colors v = redraw (reset_loop [0..<length (bar_items v)] v)"

section \<open>Sorting\<close>

text \<open>
  \<open>stop()\<close> runs on another thread and clears \<open>running\<close>. A sort sees it only where it
  reads the flag. The reads are numbered by \<open>tick\<close>, and \<open>stop_by t\<close> says that a call of
  \<open>stop()\<close> has arrived since the read before when the flag is read for the time \<open>t\<close>.
  Once cleared the flag stays cleared until a sort sets it again at its start. A sort
  that is never cancelled runs under \<open>never\<close>.
\<close>

definition poll :: "(nat \<Rightarrow> bool) \<Rightarrow> visualizer \<Rightarrow> visualizer" where
  "poll stop_by v = v\<lparr>running := running v \<and> \<not> stop_by (tick v), tick := Suc (tick v)\<rparr>"

definition never :: "nat \<Rightarrow> bool" where
  "never t = False"

text \<open>\<open>if callback: callback(self.data)\<close>.\<close>

definition notify :: "bool \<Rightarrow> visualizer \<Rightarrow> visualizer" where
  "notify callback v = (if callback then v\<lparr>progress := progress v @ [data v]\<rparr> else v)"

text \<open>The \<open>while\<close> loop of \<open>insertion_sort\<close>; a \<open>break\<close> and a false condition both leave it.\<close>

fun insertion_while :: "bool \<Rightarrow> (nat \<Rightarrow> bool) \<Rightarrow> nat \<Rightarrow> visualizer \<Rightarrow> error + visualizer" where
  "insertion_while callback stop_by j v =
     (if j > 0 then
        if length (data v) \<le> j then Inl IndexError
        else if marks (data v ! (j - 1)) > marks (data v ! j) then
          let v1 = poll stop_by v
          in if \<not> running v1 then Inr v1
             else
               let v2 = highlight [int j, int j - 1] ''#cc241d'' v1
               in bind (swap_bars (int j) (int j - 1) v2) (\<lambda>v3.
                    let v4 = highlight [int j - 1] ''#66bb6a'' v3;
                        v5 = notify callback v4
                    in insertion_while callback stop_by (j - 1) v5)
        else Inr v
      else Inr v)"

fun insertion_for :: "bool \<Rightarrow> (nat \<Rightarrow> bool) \<Rightarrow> nat list \<Rightarrow> visualizer \<Rightarrow> error + visualizer" where
  "insertion_for callback stop_by [] v = Inr v"
| "insertion_for callback stop_by (i # rest) v =
     (let v1 = poll stop_by v
      in if \<not> running v1 then Inr v1
         else
           let v2 = highlight [int i] ''#fdd835'' v1
           in bind (insertion_while callback stop_by i v2) (\<lambda>v3.
                insertion_for callback stop_by rest (reset_colors v3)))"

definition insertion_sort :: "bool \<Rightarrow> (nat \<Rightarrow> bool) \<Rightarrow> visualizer \<Rightarrow> error + visualizer" where
  "insertion_sort callback stop_by v =
     (let v0 = v\<lparr>running := True\<rparr>;
          n = length (data v0)
      in bind (insertion_for callback stop_by [1..<n] v0) (\<lambda>v1.
           Inr ((highlight (map int [0..<n]) ''#388e3c'' v1)\<lparr>running := False\<rparr>)))"

text \<open>The inner \<open>for j in range(i + 1, n)\<close> of \<open>selection_sort\<close>, returning \<open>min_idx\<close>.\<close>

fun selection_scan ::
  "(nat \<Rightarrow> bool) \<Rightarrow> nat \<Rightarrow> nat list \<Rightarrow> nat \<Rightarrow> visualizer \<Rightarrow> error + (nat \<times> visualizer)" where
  "selection_scan stop_by i [] min_idx v = Inr (min_idx, v)"
| "selection_scan stop_by i (j # rest) min_idx v =
     (let v1 = poll stop_by v
      in if \<not> running v1 then Inr (min_idx, v1)
         else
           let v2 = highlight [int j] ''#cc241d'' v1
           in if length (data v2) \<le> j \<or> length (data v2) \<le> min_idx then Inl IndexError
              else
                let m = (if marks (data v2 ! j) < marks (data v2 ! min_idx) then j else min_idx);
                    v3 = highlight [int i, int m] ''#fdd835'' (reset_colors v2)
                in selection_scan stop_by i rest m v3)"

text \<open>What follows the scan in one pass of the outer loop, from the second read of the
  flag on; \<open>False\<close> in the result stands for \<open>break\<close>.\<close>

definition selection_place ::
  "bool \<Rightarrow> (nat \<Rightarrow> bool) \<Rightarrow> nat \<Rightarrow> nat \<Rightarrow> visualizer \<Rightarrow> error + (bool \<times> visualizer)" where
  "selection_place callback stop_by i min_idx v =
     (let v1 = poll stop_by v
      in if \<not> running v1 then Inr (False, v1)
         else
           bind (if min_idx \<noteq> i
                 then bind (swap_bars (int i) (int min_idx) v1) (\<lambda>v2. Inr (notify callback v2))
                 else Inr v1) (\<lambda>v3.
             Inr (True, highlight (map int [0..<i + 1]) ''#66bb6a'' v3)))"

fun selection_for ::
  "bool \<Rightarrow> (nat \<Rightarrow> bool) \<Rightarrow> nat \<Rightarrow> nat list \<Rightarrow> visualizer \<Rightarrow> error + visualizer" where
  "selection_for callback stop_by n [] v = Inr v"
| "selection_for callback stop_by n (i # rest) v =
     (let v1 = poll stop_by v
      in if \<not> running v1 then Inr v1
         else
           let v2 = highlight [int i] ''#fdd835'' v1
           in bind (selection_scan stop_by i [i + 1..<n] i v2) (\<lambda>(min_idx, v3).
              bind (selection_place callback stop_by i min_idx v3) (\<lambda>(continue, v4).
                if continue then selection_for callback stop_by n rest v4 else Inr v4)))"

definition selection_sort :: "bool \<Rightarrow> (nat \<Rightarrow> bool) \<Rightarrow> visualizer \<Rightarrow> error + visualizer" where
  "selection_sort callback stop_by v =
     (let v0 = v\<lparr>running := True\<rparr>;
          n = length (data v0)
      in bind (selection_for callback stop_by n [0..<n] v0) (\<lambda>v1.
           Inr ((highlight (map int [0..<n]) ''#388e3c'' v1)\<lparr>running := False\<rparr>)))"

definition stop :: "visualizer \<Rightarrow> visualizer" where
  "stop v = v\<lparr>running := False\<rparr>"

declare insertion_while.simps [simp del]

section \<open>The application\<close>

text \<open>
  \<open>StudentApp\<close>, as far as starting a sort goes. The database is the list of rows that
  \<open>fetch_all\<close> returns. A thread is a handle with the algorithm it was started for and
  whether it is still alive; its run happens elsewhere, and \<open>alive\<close> is cleared when
  \<open>_run_sort\<close> returns.
\<close>

record thread =
  algo :: string
  alive :: bool

record student_app =
  db_rows :: "student list"
  visualizer :: visualizer
  info_label :: string
  sort_thread :: "thread option"

text \<open>What a start request hands back: the \<open>messagebox.showinfo(title, message)\<close> it
  opened, or nothing when it started a thread.\<close>

datatype response = ShowInfo string string | Started

text \<open>\<open>self.sort_thread and self.sort_thread.is_alive()\<close>.\<close>

definition is_alive :: "thread option \<Rightarrow> bool" where
  "is_alive th = (case th of None \<Rightarrow> False | Some t \<Rightarrow> alive t)"

definition fetch_all :: "student_app \<Rightarrow> student list" where
  "fetch_all app = db_rows app"

definition start_insertion_sort :: "student_app \<Rightarrow> response \<times> student_app" where
  "start_insertion_sort app =
     (if is_alive (sort_thread app) then (ShowInfo ''Sorting'' ''Already running.'', app)
      else
        let rows = fetch_all app
        in if rows = [] then (ShowInfo ''Empty'' ''No data.'', app)
           else (Started,
                 app\<lparr>visualizer := load_data rows (visualizer app),
                     info_label := ''Insertion Sort running...'',
                     sort_thread := Some \<lparr>algo = ''insertion'', alive = True\<rparr>\<rparr>))"

definition start_selection_sort :: "student_app \<Rightarrow> response \<times> student_app" where
  "start_selection_sort app =
     (if is_alive (sort_thread app) then (ShowInfo ''Sorting'' ''Already running.'', app)
      else
        let rows = fetch_all app
        in if rows = [] then (ShowInfo ''Empty'' ''No data.'', app)
           else (Started,
                 app\<lparr>visualizer := load_data rows (visualizer app),
                     info_label := ''Selection Sort running...'',
                     sort_thread := Some \<lparr>algo = ''selection'', alive = True\<rparr>\<rparr>))"

section \<open>Properties\<close>

subsection \<open>Handles that correspond to a record\<close>

text \<open>
  A bar handle shows a record when the canvas holds a rectangle under that id whose
  height is the record's scaled marks; a text handle shows a string when the canvas
  holds an item under that id with that text. The handles at an index correspond to a
  record when the bar shows its marks, the first text its marks and the second its name.
\<close>

definition shows_bar :: "(nat \<times> item) list \<Rightarrow> rat \<Rightarrow> nat \<Rightarrow> bool" where
  "shows_bar its h b =
     (case map_of its b of None \<Rightarrow> False
      | Some it \<Rightarrow> (case coords it of [x0, y0, x1, y1] \<Rightarrow> y1 - y0 = h | _ \<Rightarrow> False))"

definition shows_text :: "(nat \<times> item) list \<Rightarrow> string \<Rightarrow> nat \<Rightarrow> bool" where
  "shows_text its s t = (case map_of its t of None \<Rightarrow> False | Some it \<Rightarrow> item_text it = s)"

definition corresponds :: "(nat \<times> item) list \<Rightarrow> int \<Rightarrow> int \<Rightarrow> student \<Rightarrow> nat \<Rightarrow> nat \<times> nat \<Rightarrow> bool" where
  "corresponds its h mx d b tn =
     (shows_bar its (bar_height h mx (marks d)) b \<and>
      shows_text its (str_int (marks d)) (fst tn) \<and>
      shows_text its (name d) (snd tn))"

text \<open>The three lists are aligned: they have one length, and at every index the
  handles correspond to the record.\<close>

definition aligned ::
  "int \<Rightarrow> (nat \<times> item) list \<Rightarrow> student list \<Rightarrow> nat list \<Rightarrow> (nat \<times> nat) list \<Rightarrow> bool" where
  "aligned h its ds bs ts =
     (length bs = length ds \<and> length ts = length ds \<and>
      (\<forall>k \<in> {0..<length ds}. corresponds its h (max_val ds) (ds ! k) (bs ! k) (ts ! k)))"

text \<open>The state is aligned now, and so was every redraw from frame number \<open>since\<close> on.\<close>

definition lockstep :: "nat \<Rightarrow> visualizer \<Rightarrow> bool" where
  "lockstep since v =
     (aligned (height v) (items (canvas v)) (data v) (bar_items v) (text_items v) \<and>
      (\<forall>f \<in> set (drop since (frames v)).
         aligned (height v) (shown_items f) (shown_data f) (shown_bars f) (shown_texts f)))"

text \<open>The states the visualizer can be in: the one \<open>__init__\<close> builds, and from there any
  sequence of its methods, with any arguments and any cancellation.\<close>

inductive reachable :: "visualizer \<Rightarrow> bool" where
  init: "reachable (init_visualizer w h)"
| load: "reachable v \<Longrightarrow> reachable (load_data rows v)"
| move: "reachable v \<Longrightarrow> move_bar index dx dy steps v = Inr v' \<Longrightarrow> reachable v'"
| swap: "reachable v \<Longrightarrow> swap_bars i j v = Inr v' \<Longrightarrow> reachable v'"
| highlight: "reachable v \<Longrightarrow> reachable (highlight indices color v)"
| reset: "reachable v \<Longrightarrow> reachable (reset_colors v)"
| insertion: "reachable v \<Longrightarrow> insertion_sort callback stop_by v = Inr v' \<Longrightarrow> reachable v'"
| selection: "reachable v \<Longrightarrow> selection_sort callback stop_by v = Inr v' \<Longrightarrow> reachable v'"
| stop: "reachable v \<Longrightarrow> reachable (stop v)"

text \<open>The fill colour of the item under a handle, and of the bar at an index.\<close>

definition fill_at :: "canvas \<Rightarrow> nat \<Rightarrow> string option" where
  "fill_at c h = map_option fill (map_of (items c) h)"

definition bar_fill :: "visualizer \<Rightarrow> nat \<Rightarrow> string option" where
  "bar_fill v k = fill_at (canvas v) (bar_items v ! k)"

subsection \<open>Vocabulary of the proofs\<close>

text \<open>The three tuple assignments of \<open>swap_bars\<close> at once.\<close>

definition exchanged :: "nat \<Rightarrow> nat \<Rightarrow> visualizer \<Rightarrow> visualizer" where
  "exchanged i j v =
     v\<lparr>bar_items := (bar_items v)[i := bar_items v ! j, j := bar_items v ! i],
       text_items := (text_items v)[i := text_items v ! j, j := text_items v ! i],
       data := (data v)[i := data v ! j, j := data v ! i]\<rparr>"

text \<open>\<open>v'\<close> differs from \<open>v\<close> in the canvas and the frames only.\<close>

definition paints :: "visualizer \<Rightarrow> visualizer \<Rightarrow> bool" where
  "paints v v' = (v' = v\<lparr>canvas := canvas v', frames := frames v'\<rparr>)"

text \<open>The first \<open>i\<close> records are in order of their marks.\<close>

definition sorted_upto :: "nat \<Rightarrow> student list \<Rightarrow> bool" where
  "sorted_upto i ds = (\<forall>a b. a < b \<and> b < i \<longrightarrow> marks (ds ! a) \<le> marks (ds ! b))"

text \<open>The invariant of the inner loop of insertion sort: positions \<open>0..i\<close> are in order
  once position \<open>j\<close> is left out, and everything after \<open>j\<close> up to \<open>i\<close> is greater than
  the record at \<open>j\<close>.\<close>

definition inserting :: "nat \<Rightarrow> nat \<Rightarrow> student list \<Rightarrow> bool" where
  "inserting j i ds =
     ((\<forall>a b. a < b \<and> b \<le> i \<and> a \<noteq> j \<and> b \<noteq> j \<longrightarrow> marks (ds ! a) \<le> marks (ds ! b)) \<and>
      (\<forall>b. j < b \<and> b \<le> i \<longrightarrow> marks (ds ! j) < marks (ds ! b)))"

text \<open>\<open>m\<close> is the earliest index of a least record among positions \<open>i..<j\<close>.\<close>

definition least_min :: "nat \<Rightarrow> nat \<Rightarrow> nat \<Rightarrow> student list \<Rightarrow> bool" where
  "least_min m i j ds =
     (i \<le> m \<and> m < j \<and>
      (\<forall>k. i \<le> k \<and> k < j \<longrightarrow> marks (ds ! m) \<le> marks (ds ! k)) \<and>
      (\<forall>k. i \<le> k \<and> k < m \<longrightarrow> marks (ds ! m) < marks (ds ! k)))"

text \<open>The invariant of the outer loop of selection sort: the first \<open>i\<close> records are in
  order and none of them is greater than a later one.\<close>

definition selected :: "nat \<Rightarrow> nat \<Rightarrow> student list \<Rightarrow> bool" where
  "selected i n ds =
     (sorted_upto i ds \<and>
      (\<forall>a b. a < i \<and> i \<le> b \<and> b < n \<longrightarrow> marks (ds ! a) \<le> marks (ds ! b)))"

text \<open>Every id on the canvas is below the next id it hands out.\<close>

definition fresh :: "canvas \<Rightarrow> bool" where
  "fresh c = (\<forall>k \<in> fst ` set (items c). k < next_id c)"

text \<open>The state of the drawing loop of \<open>load_data\<close> after the rows \<open>pre\<close>.\<close>

definition drawn :: "int \<Rightarrow> student list \<Rightarrow> visualizer \<Rightarrow> bool" where
  "drawn mx pre v =
     (fresh (canvas v) \<and> length (bar_items v) = length pre \<and> length (text_items v) = length pre \<and>
      (\<forall>q < length pre. corresponds (items (canvas v)) (height v) mx (pre ! q)
           (bar_items v ! q) (text_items v ! q)))"

subsection \<open>Sample inputs\<close>

text \<open>Three rows, the visualizer after loading them into a 620 by 360 canvas, an
  application with a live sort thread and an empty table, and an idle one.\<close>

definition row_a :: student where
  "row_a = \<lparr>student_id = 1, name = ''A'', roll = ''R1'', marks = 30\<rparr>"

definition row_b :: student where
  "row_b = \<lparr>student_id = 2, name = ''B'', roll = ''R2'', marks = 10\<rparr>"

definition row_c :: student where
  "row_c = \<lparr>student_id = 3, name = ''C'', roll = ''R3'', marks = 20\<rparr>"

definition loaded :: visualizer where
  "loaded = load_data [row_a, row_b, row_c] (init_visualizer 620 360)"

definition busy_app :: student_app where
  "busy_app = \<lparr>db_rows = [], visualizer = loaded, info_label = ''Insertion Sort running...'',
                sort_thread = Some \<lparr>algo = ''insertion'', alive = True\<rparr>\<rparr>"


section \<open>Lemmas\<close>

subsection \<open>Canvas operations keep what is shown\<close>

lemma shift_Nil [simp]: "shift dx dy cs = [] \<longleftrightarrow> cs = []"
  by (induction dx dy cs rule: shift.induct) simp_all

lemma shift_bar:
  "(case shift dx dy cs of [x0, y0, x1, y1] \<Rightarrow> y1 - y0 = h | _ \<Rightarrow> False) =
   (case cs of [x0, y0, x1, y1] \<Rightarrow> y1 - y0 = h | _ \<Rightarrow> False)"
  by (auto split: list.splits)

lemma shows_bar_move [simp]:
  "shows_bar (items (canvas_move t dx dy c)) h b = shows_bar (items c) h b"
  by (auto simp: shows_bar_def canvas_move_def map_of_map_entry shift_bar split: option.splits)

lemma shows_text_move [simp]:
  "shows_text (items (canvas_move h dx dy c)) s t = shows_text (items c) s t"
  by (auto simp: shows_text_def canvas_move_def map_of_map_entry split: option.splits)

lemma shows_bar_itemconfig [simp]:
  "shows_bar (items (canvas_itemconfig t col c)) h b = shows_bar (items c) h b"
  by (auto simp: shows_bar_def canvas_itemconfig_def map_of_map_entry split: option.splits)

lemma shows_text_itemconfig [simp]:
  "shows_text (items (canvas_itemconfig h col c)) s t = shows_text (items c) s t"
  by (auto simp: shows_text_def canvas_itemconfig_def map_of_map_entry split: option.splits)

lemma aligned_move [simp]:
  "aligned h (items (canvas_move t dx dy c)) ds bs ts = aligned h (items c) ds bs ts"
  by (simp add: aligned_def corresponds_def)

lemma aligned_itemconfig [simp]:
  "aligned h (items (canvas_itemconfig t col c)) ds bs ts = aligned h (items c) ds bs ts"
  by (simp add: aligned_def corresponds_def)

subsection \<open>Painting changes the canvas and the frames only\<close>

lemma paintsE:
  assumes "paints v v'"
  obtains c f where "v' = v\<lparr>canvas := c, frames := f\<rparr>"
  using assms unfolding paints_def by blast

lemma paints_refl [simp]: "paints v v"
  by (simp add: paints_def)

lemma paints_trans: "paints v v' \<Longrightarrow> paints v' v'' \<Longrightarrow> paints v v''"
  by (elim paintsE) (simp add: paints_def)

lemma paints_fields:
  assumes "paints v v'"
  shows "data v' = data v" "bar_items v' = bar_items v" "text_items v' = text_items v"
    "width v' = width v" "height v' = height v" "padding v' = padding v"
    "running v' = running v" "tick v' = tick v" "progress v' = progress v"
  using assms by (elim paintsE, simp)+

subsection \<open>Redraws, highlights and moves keep the lockstep\<close>

lemma drop_snoc_cases:
  "f \<in> set (drop k (fs @ [x])) \<Longrightarrow> f \<in> set (drop k fs) \<or> f = x"
  using in_set_dropD [of f "k - length fs" "[x]"] by auto

lemma lockstep_redraw:
  assumes "lockstep since v"
  shows "lockstep since (redraw v)"
proof -
  define x where "x = \<lparr>shown_items = items (canvas v), shown_data = data v,
      shown_bars = bar_items v, shown_texts = text_items v\<rparr>"
  have fr: "frames (redraw v) = frames v @ [x]"
    by (simp add: redraw_def x_def)
  have now: "aligned (height v) (items (canvas v)) (data v) (bar_items v) (text_items v)"
    using assms by (simp add: lockstep_def)
  have "aligned (height v) (shown_items f) (shown_data f) (shown_bars f) (shown_texts f)"
    if "f \<in> set (drop since (frames (redraw v)))" for f
  proof -
    from that have "f \<in> set (drop since (frames v)) \<or> f = x"
      unfolding fr by (rule drop_snoc_cases)
    then show ?thesis
      using assms now by (auto simp: lockstep_def x_def)
  qed
  then show ?thesis
    using now by (simp add: lockstep_def redraw_def)
qed

lemma paints_redraw: "paints v (redraw v)"
  by (simp add: paints_def redraw_def)

lemma lockstep_lengths:
  "lockstep since v \<Longrightarrow> length (bar_items v) = length (data v)"
  "lockstep since v \<Longrightarrow> length (text_items v) = length (data v)"
  by (simp_all add: lockstep_def aligned_def)

lemma lockstep_itemconfig [simp]:
  "lockstep since (v\<lparr>canvas := canvas_itemconfig t col (canvas v)\<rparr>) = lockstep since v"
  by (simp add: lockstep_def)

lemma highlight_loop_lockstep: "lockstep since v \<Longrightarrow> lockstep since (highlight_loop indices col v)"
  by (induction indices arbitrary: v) simp_all

lemma highlight_loop_paints: "paints v (highlight_loop indices col v)"
proof (induction indices arbitrary: v)
  case Nil
  show ?case by simp
next
  case (Cons i indices)
  define w where "w = (if 0 \<le> i \<and> i < int (length (bar_items v))
        then v\<lparr>canvas := canvas_itemconfig (bar_items v ! nat i) col (canvas v)\<rparr> else v)"
  have "paints v w"
    by (simp add: w_def paints_def)
  moreover have "paints w (highlight_loop indices col w)"
    by (rule Cons.IH)
  moreover have "highlight_loop (i # indices) col v = highlight_loop indices col w"
    by (simp add: w_def)
  ultimately show ?case
    using paints_trans by simp
qed

lemma highlight_loop_frames [simp]: "frames (highlight_loop indices col v) = frames v"
  by (induction indices arbitrary: v) simp_all

lemma highlight_lockstep: "lockstep since v \<Longrightarrow> lockstep since (highlight indices col v)"
  by (simp add: highlight_def highlight_loop_lockstep lockstep_redraw)

lemma highlight_paints: "paints v (highlight indices col v)"
  unfolding highlight_def using highlight_loop_paints paints_redraw paints_trans by blast

lemma redraw_frames [simp]: "length (frames (redraw v)) = Suc (length (frames v))"
  by (simp add: redraw_def)

lemma highlight_frames [simp]:
  "length (frames (highlight indices col v)) = Suc (length (frames v))"
  by (simp add: highlight_def)

lemma reset_loop_lockstep: "lockstep since v \<Longrightarrow> lockstep since (reset_loop ks v)"
  by (induction ks arbitrary: v) simp_all

lemma reset_loop_paints: "paints v (reset_loop ks v)"
proof (induction ks arbitrary: v)
  case Nil
  show ?case by simp
next
  case (Cons k ks)
  define w where "w = v\<lparr>canvas := canvas_itemconfig (bar_items v ! k) ''#2b7a78'' (canvas v)\<rparr>"
  have "paints v w"
    by (simp add: w_def paints_def)
  moreover have "paints w (reset_loop ks w)"
    by (rule Cons.IH)
  moreover have "reset_loop (k # ks) v = reset_loop ks w"
    by (simp add: w_def)
  ultimately show ?case
    using paints_trans by simp
qed

lemma reset_loop_frames [simp]: "frames (reset_loop ks v) = frames v"
  by (induction ks arbitrary: v) simp_all

lemma reset_colors_lockstep: "lockstep since v \<Longrightarrow> lockstep since (reset_colors v)"
  by (simp add: reset_colors_def reset_loop_lockstep lockstep_redraw)

lemma reset_colors_paints: "paints v (reset_colors v)"
  unfolding reset_colors_def using reset_loop_paints paints_redraw paints_trans by blast

lemma reset_colors_frames [simp]: "length (frames (reset_colors v)) = Suc (length (frames v))"
  by (simp add: reset_colors_def)

lemma move_steps_ok:
  "lockstep since v \<Longrightarrow> index < length (bar_items v) \<Longrightarrow>
   \<exists>v'. move_steps k index sx sy v = Inr v' \<and> lockstep since v' \<and> paints v v' \<and>
        length (frames v') = length (frames v) + k"
proof (induction k arbitrary: v)
  case 0
  then show ?case by simp
next
  case (Suc k)
  obtain t n where tn: "text_items v ! index = (t, n)"
    by (cases "text_items v ! index")
  define w where "w = redraw (v\<lparr>canvas := canvas_move n sx sy (canvas_move t sx sy
                        (canvas_move (bar_items v ! index) sx sy (canvas v)))\<rparr>)"
  have len: "index < length (text_items v)"
    using Suc.prems by (simp add: lockstep_lengths)
  have step: "move_steps (Suc k) index sx sy v = move_steps k index sx sy w"
    using len tn by (simp add: w_def)
  have w_lockstep: "lockstep since w"
    using Suc.prems(1) unfolding w_def by (intro lockstep_redraw) (simp add: lockstep_def)
  have w_paints: "paints v w"
    by (simp add: w_def paints_def redraw_def)
  have w_frames: "length (frames w) = Suc (length (frames v))"
    by (simp add: w_def)
  have "index < length (bar_items w)"
    using Suc.prems(2) w_paints by (simp add: paints_fields)
  from Suc.IH [OF w_lockstep this]
  obtain v' where "move_steps k index sx sy w = Inr v'" "lockstep since v'" "paints w v'"
    "length (frames v') = length (frames w) + k"
    by blast
  then show ?case
    using step w_paints w_frames paints_trans [of v w v'] by simp
qed

lemma move_bar_ok:
  "lockstep since v \<Longrightarrow>
   \<exists>v'. move_bar index dx dy steps v = Inr v' \<and> lockstep since v' \<and> paints v v' \<and>
        length (frames v') =
          length (frames v) + (if 0 \<le> index \<and> index < int (length (bar_items v)) then steps else 0)"
proof (cases "0 \<le> index \<and> index < int (length (bar_items v))")
  case True
  assume "lockstep since v"
  moreover have "nat index < length (bar_items v)"
    using True by linarith
  ultimately show ?thesis
    using True move_steps_ok [of since v "nat index" steps] by (simp add: move_bar_def)
next
  case False
  assume "lockstep since v"
  then show ?thesis
    using False by (auto simp: move_bar_def)
qed

subsection \<open>Swapping\<close>

lemma max_val_swap:
  "i < length ds \<Longrightarrow> j < length ds \<Longrightarrow> max_val (ds[i := ds ! j, j := ds ! i]) = max_val ds"
  by (simp add: max_val_def)

lemma aligned_swap:
  assumes "aligned h its ds bs ts" and "i < length ds" and "j < length ds"
  shows "aligned h its (ds[i := ds ! j, j := ds ! i]) (bs[i := bs ! j, j := bs ! i])
           (ts[i := ts ! j, j := ts ! i])"
  using assms by (auto simp: aligned_def max_val_swap nth_list_update)

lemma lockstep_exchanged:
  "lockstep since v \<Longrightarrow> i < length (data v) \<Longrightarrow> j < length (data v) \<Longrightarrow> lockstep since (exchanged i j v)"
  by (simp add: lockstep_def exchanged_def aligned_swap)

lemma swap_lists_ok:
  "lockstep since v \<Longrightarrow> i < length (data v) \<Longrightarrow> j < length (data v) \<Longrightarrow>
   swap_lists i j v = Inr (redraw (exchanged i j v))"
  by (simp add: swap_lists_def exchanged_def Let_def lockstep_lengths)

lemma lockstep_coords:
  "lockstep since v \<Longrightarrow> k < length (data v) \<Longrightarrow> canvas_coords (canvas v) (bar_items v ! k) \<noteq> []"
  by (auto simp: lockstep_def aligned_def corresponds_def shows_bar_def canvas_coords_def
      split: option.splits list.splits)

lemma swap_bars_ok:
  assumes "lockstep since v" and "i \<noteq> j" and "i < length (data v)" and "j < length (data v)"
  shows "\<exists>w. lockstep since w \<and> paints v w \<and> length (frames w) = length (frames v) + 120 \<and>
             swap_bars (int i) (int j) v = Inr (redraw (exchanged i j w))"
proof -
  define dx where "dx = canvas_coords (canvas v) (bar_items v ! j) ! 0
                        - canvas_coords (canvas v) (bar_items v ! i) ! 0"
  have range: "i < length (bar_items v)" "j < length (bar_items v)"
    using assms by (simp_all add: lockstep_lengths)
  have keep: "length (bar_items w) = length (bar_items v)" "length (data w) = length (data v)"
    if "paints v w" for w
    using that by (simp_all add: paints_fields)
  obtain v1 where v1: "move_bar (int i) 0 (- 30) 20 v = Inr v1" "lockstep since v1" "paints v v1"
      "length (frames v1) = length (frames v) + 20"
    using move_bar_ok [OF assms(1), of "int i" 0 "- 30" 20] range by auto
  obtain v2 where v2: "move_bar (int j) 0 (- 30) 20 v1 = Inr v2" "lockstep since v2" "paints v v2"
      "length (frames v2) = length (frames v) + 40"
    using move_bar_ok [OF v1(2), of "int j" 0 "- 30" 20] range keep [OF v1(3)] v1(3,4) paints_trans
    by auto
  obtain v3 where v3: "move_bar (int i) dx 0 20 v2 = Inr v3" "lockstep since v3" "paints v v3"
      "length (frames v3) = length (frames v) + 60"
    using move_bar_ok [OF v2(2), of "int i" dx 0 20] range keep [OF v2(3)] v2(3,4) paints_trans
    by auto
  obtain v4 where v4: "move_bar (int j) (- dx) 0 20 v3 = Inr v4" "lockstep since v4" "paints v v4"
      "length (frames v4) = length (frames v) + 80"
    using move_bar_ok [OF v3(2), of "int j" "- dx" 0 20] range keep [OF v3(3)] v3(3,4) paints_trans
    by auto
  obtain v5 where v5: "move_bar (int i) 0 30 20 v4 = Inr v5" "lockstep since v5" "paints v v5"
      "length (frames v5) = length (frames v) + 100"
    using move_bar_ok [OF v4(2), of "int i" 0 30 20] range keep [OF v4(3)] v4(3,4) paints_trans
    by auto
  obtain v6 where v6: "move_bar (int j) 0 30 20 v5 = Inr v6" "lockstep since v6" "paints v v6"
      "length (frames v6) = length (frames v) + 120"
    using move_bar_ok [OF v5(2), of "int j" 0 30 20] range keep [OF v5(3)] v5(3,4) paints_trans
    by auto
  have "swap_lists i j v6 = Inr (redraw (exchanged i j v6))"
    using swap_lists_ok [OF v6(2)] assms(3,4) keep [OF v6(3)] by simp
  then have "swap_bars (int i) (int j) v = Inr (redraw (exchanged i j v6))"
    using assms(2) range lockstep_coords [OF assms(1,3)] lockstep_coords [OF assms(1,4)]
      v1(1) v2(1) v3(1) v4(1) v5(1) v6(1)
    by (simp add: swap_bars_def bind_def Let_def dx_def)
  then show ?thesis
    using v6 by blast
qed

lemma swap_bars_fields:
  assumes "lockstep since v" and "i \<noteq> j" and "i < length (data v)" and "j < length (data v)"
  obtains v' where "swap_bars (int i) (int j) v = Inr v'" and "lockstep since v'"
    and "data v' = (data v)[i := data v ! j, j := data v ! i]"
    and "bar_items v' = (bar_items v)[i := bar_items v ! j, j := bar_items v ! i]"
    and "text_items v' = (text_items v)[i := text_items v ! j, j := text_items v ! i]"
    and "running v' = running v" and "tick v' = tick v" and "progress v' = progress v"
    and "length (frames v') = length (frames v) + 121"
proof -
  obtain w where w: "lockstep since w" "paints v w" "length (frames w) = length (frames v) + 120"
      "swap_bars (int i) (int j) v = Inr (redraw (exchanged i j w))"
    using swap_bars_ok [OF assms] by blast
  have "lockstep since (redraw (exchanged i j w))"
    using w(1,2) assms(3,4) by (intro lockstep_redraw lockstep_exchanged) (simp_all add: paints_fields)
  then show thesis
    using w(3,4) paints_fields [OF w(2)]
    by (intro that [of "redraw (exchanged i j w)"]) (simp_all add: redraw_def exchanged_def)
qed

subsection \<open>Reading the flag and notifying\<close>

lemma poll_simps [simp]:
  "lockstep since (poll stop_by v) = lockstep since v" "data (poll stop_by v) = data v"
  "bar_items (poll stop_by v) = bar_items v" "text_items (poll stop_by v) = text_items v"
  "frames (poll stop_by v) = frames v" "progress (poll stop_by v) = progress v"
  "canvas (poll stop_by v) = canvas v"
  "running (poll never v) = running v"
  by (simp_all add: poll_def lockstep_def never_def)

lemma notify_simps [simp]:
  "lockstep since (notify callback v) = lockstep since v" "data (notify callback v) = data v"
  "bar_items (notify callback v) = bar_items v" "text_items (notify callback v) = text_items v"
  "frames (notify callback v) = frames v" "running (notify callback v) = running v"
  "canvas (notify callback v) = canvas v"
  by (simp_all add: notify_def lockstep_def)

lemma highlight_simps [simp]:
  "data (highlight indices col v) = data v" "bar_items (highlight indices col v) = bar_items v"
  "text_items (highlight indices col v) = text_items v"
  "running (highlight indices col v) = running v" "tick (highlight indices col v) = tick v"
  "progress (highlight indices col v) = progress v"
  using paints_fields [OF highlight_paints] by simp_all

lemma reset_colors_simps [simp]:
  "data (reset_colors v) = data v" "bar_items (reset_colors v) = bar_items v"
  "text_items (reset_colors v) = text_items v"
  "running (reset_colors v) = running v" "tick (reset_colors v) = tick v"
  "progress (reset_colors v) = progress v"
  using paints_fields [OF reset_colors_paints] by simp_all

subsection \<open>Insertion sort\<close>

lemma insertion_while_ok:
  "lockstep since v \<Longrightarrow> j < length (data v) \<Longrightarrow>
   \<exists>v'. insertion_while callback stop_by j v = Inr v' \<and> lockstep since v' \<and> mset (data v') = mset (data v)"
proof (induction j arbitrary: v)
  case 0
  then show ?case by (simp add: insertion_while.simps)
next
  case (Suc j)
  show ?case
  proof (cases "marks (data v ! j) > marks (data v ! Suc j) \<and> running (poll stop_by v)")
    case False
    then show ?thesis
      using Suc.prems by (auto simp: insertion_while.simps [of _ _ "Suc j"])
  next
    case True
    define v2 where "v2 = highlight [int (Suc j), int (Suc j) - 1] ''#cc241d'' (poll stop_by v)"
    have v2: "lockstep since v2" "data v2 = data v"
      using Suc.prems(1) by (simp_all add: v2_def highlight_lockstep)
    obtain v3 where v3: "swap_bars (int (Suc j)) (int j) v2 = Inr v3" "lockstep since v3"
        "data v3 = (data v2)[Suc j := data v2 ! j, j := data v2 ! Suc j]"
      using swap_bars_fields [of since v2 "Suc j" j] v2 Suc.prems(2) by auto
    define v5 where "v5 = notify callback (highlight [int (Suc j) - 1] ''#66bb6a'' v3)"
    have v5: "lockstep since v5" "data v5 = data v3"
      using v3(2) by (simp_all add: v5_def highlight_lockstep)
    have perm: "mset (data v5) = mset (data v)"
      using v5(2) v3(3) v2(2) Suc.prems(2) by (simp add: mset_swap)
    then have "length (data v5) = length (data v)"
      by (rule mset_eq_length)
    then obtain v' where v': "insertion_while callback stop_by j v5 = Inr v'" "lockstep since v'"
        "mset (data v') = mset (data v5)"
      using Suc.IH [OF v5(1)] Suc.prems(2) by auto
    have "insertion_while callback stop_by (Suc j) v = insertion_while callback stop_by j v5"
      using True Suc.prems(2) v3(1)
      by (simp add: insertion_while.simps [of _ _ "Suc j"] Let_def bind_def v2_def v5_def)
    then show ?thesis
      using v' perm by simp
  qed
qed

lemma insertion_for_ok:
  "lockstep since v \<Longrightarrow> \<forall>i \<in> set indices. i < length (data v) \<Longrightarrow>
   \<exists>v'. insertion_for callback stop_by indices v = Inr v' \<and> lockstep since v' \<and>
        mset (data v') = mset (data v)"
proof (induction indices arbitrary: v)
  case Nil
  then show ?case by simp
next
  case (Cons i indices)
  show ?case
  proof (cases "running (poll stop_by v)")
    case False
    then show ?thesis
      using Cons.prems(1) by simp
  next
    case True
    define v2 where "v2 = highlight [int i] ''#fdd835'' (poll stop_by v)"
    have v2: "lockstep since v2" "data v2 = data v"
      using Cons.prems(1) by (simp_all add: v2_def highlight_lockstep)
    obtain v3 where v3: "insertion_while callback stop_by i v2 = Inr v3" "lockstep since v3"
        "mset (data v3) = mset (data v)"
      using insertion_while_ok [of since v2 i callback stop_by] v2 Cons.prems(2) by auto
    have len: "length (data v3) = length (data v)"
      using v3(3) by (rule mset_eq_length)
    obtain v' where v': "insertion_for callback stop_by indices (reset_colors v3) = Inr v'"
        "lockstep since v'" "mset (data v') = mset (data v3)"
      using Cons.IH [of "reset_colors v3"] v3(2) len Cons.prems(2) by (auto simp: reset_colors_lockstep)
    have "insertion_for callback stop_by (i # indices) v =
          insertion_for callback stop_by indices (reset_colors v3)"
      using True v3(1) by (simp add: Let_def bind_def v2_def)
    then show ?thesis
      using v' v3(3) by simp
  qed
qed

lemma lockstep_running [simp]: "lockstep since (v\<lparr>running := r\<rparr>) = lockstep since v"
  by (simp add: lockstep_def)

lemma insertion_sort_ok:
  assumes "lockstep since v"
  shows "\<exists>v'. insertion_sort callback stop_by v = Inr v' \<and> lockstep since v' \<and>
              mset (data v') = mset (data v) \<and> \<not> running v'"
proof -
  obtain v1 where v1: "insertion_for callback stop_by [1..<length (data v)] (v\<lparr>running := True\<rparr>) = Inr v1"
      "lockstep since v1" "mset (data v1) = mset (data v)"
    using insertion_for_ok [of since "v\<lparr>running := True\<rparr>" "[1..<length (data v)]" callback stop_by] assms
    by auto
  have "insertion_sort callback stop_by v =
        Inr ((highlight (map int [0..<length (data v)]) ''#388e3c'' v1)\<lparr>running := False\<rparr>)"
    using v1(1) by (simp add: insertion_sort_def bind_def)
  then show ?thesis
    using v1(2,3) by (simp add: highlight_lockstep)
qed

lemma insertion_while_sorts:
  "lockstep since v \<Longrightarrow> running v \<Longrightarrow> j \<le> i \<Longrightarrow> i < length (data v) \<Longrightarrow> inserting j i (data v) \<Longrightarrow>
   \<exists>v'. insertion_while callback never j v = Inr v' \<and> running v' \<and>
        sorted_upto (Suc i) (data v')"
proof (induction j arbitrary: v)
  case 0
  have "sorted_upto (Suc i) (data v)"
    unfolding sorted_upto_def
  proof (intro allI impI)
    fix a b
    assume ab: "a < b \<and> b < Suc i"
    show "marks (data v ! a) \<le> marks (data v ! b)"
    proof (cases "a = 0")
      case True
      then show ?thesis
        using "0.prems"(5) ab unfolding inserting_def by (simp add: less_imp_le)
    next
      case False
      then show ?thesis
        using "0.prems"(5) ab unfolding inserting_def by simp
    qed
  qed
  then show ?case
    using "0.prems"(2) by (simp add: insertion_while.simps)
next
  case (Suc j)
  let ?d = "data v"
  show ?case
  proof (cases "marks (?d ! j) > marks (?d ! Suc j)")
    case False
    have "sorted_upto (Suc i) ?d"
      unfolding sorted_upto_def
    proof (intro allI impI)
      fix a b
      assume ab: "a < b \<and> b < Suc i"
      consider "a = Suc j" | "b = Suc j" "a = j" | "b = Suc j" "a < j" | "a \<noteq> Suc j" "b \<noteq> Suc j"
        using ab by linarith
      then show "marks (?d ! a) \<le> marks (?d ! b)"
      proof cases
        case 1
        then show ?thesis
          using Suc.prems(5) ab unfolding inserting_def by (simp add: less_imp_le)
      next
        case 2
        then show ?thesis
          using False by simp
      next
        case 3
        then have "marks (?d ! a) \<le> marks (?d ! j)"
          using Suc.prems(3,5) unfolding inserting_def by simp
        then show ?thesis
          using False 3 by simp
      next
        case 4
        then show ?thesis
          using Suc.prems(5) ab unfolding inserting_def by simp
      qed
    qed
    then show ?thesis
      using False Suc.prems(2,3,4) by (simp add: insertion_while.simps [of _ _ "Suc j"])
  next
    case True
    define v2 where "v2 = highlight [int (Suc j), int (Suc j) - 1] ''#cc241d'' (poll never v)"
    have v2: "lockstep since v2" "data v2 = ?d" "running v2"
      using Suc.prems(1,2) by (simp_all add: v2_def highlight_lockstep)
    obtain v3 where v3: "swap_bars (int (Suc j)) (int j) v2 = Inr v3" "lockstep since v3"
        "data v3 = ?d[Suc j := ?d ! j, j := ?d ! Suc j]" "running v3"
      using swap_bars_fields [of since v2 "Suc j" j] v2 Suc.prems(3,4) by auto
    define v5 where "v5 = notify callback (highlight [int (Suc j) - 1] ''#66bb6a'' v3)"
    have v5: "lockstep since v5" "data v5 = ?d[Suc j := ?d ! j, j := ?d ! Suc j]" "running v5"
      using v3(2,3,4) by (simp_all add: v5_def highlight_lockstep)
    have ins: "inserting j i (data v5)"
      unfolding inserting_def v5(2)
    proof (intro conjI allI impI)
      fix a b
      assume ab: "a < b \<and> b \<le> i \<and> a \<noteq> j \<and> b \<noteq> j"
      have old: "marks (?d ! x) \<le> marks (?d ! y)" if "x < y" "y \<le> i" "x \<noteq> Suc j" "y \<noteq> Suc j" for x y
        using Suc.prems(5) that unfolding inserting_def by simp
      consider "a = Suc j" | "b = Suc j" | "a \<noteq> Suc j" "b \<noteq> Suc j"
        by blast
      then show "marks (?d[Suc j := ?d ! j, j := ?d ! Suc j] ! a)
                 \<le> marks (?d[Suc j := ?d ! j, j := ?d ! Suc j] ! b)"
      proof cases
        case 1
        then show ?thesis
          using ab Suc.prems(3,4) old [of j b] by simp
      next
        case 2
        then show ?thesis
          using ab Suc.prems(3,4) old [of a j] by simp
      next
        case 3
        then show ?thesis
          using ab old [of a b] by simp
      qed
    next
      fix b
      assume b: "j < b \<and> b \<le> i"
      show "marks (?d[Suc j := ?d ! j, j := ?d ! Suc j] ! j)
            < marks (?d[Suc j := ?d ! j, j := ?d ! Suc j] ! b)"
      proof (cases "b = Suc j")
        case True
        then show ?thesis
          using \<open>marks (?d ! j) > marks (?d ! Suc j)\<close> Suc.prems(3,4) by simp
      next
        case False
        then have "marks (?d ! Suc j) < marks (?d ! b)"
          using Suc.prems(5) b unfolding inserting_def by simp
        then show ?thesis
          using False b Suc.prems(3,4) by simp
      qed
    qed
    have "length (data v5) = length ?d"
      by (simp add: v5(2))
    then obtain v' where v': "insertion_while callback never j v5 = Inr v'" "running v'"
        "sorted_upto (Suc i) (data v')"
      using Suc.IH [OF v5(1) v5(3) _ _ ins] Suc.prems(3,4) by auto
    have "insertion_while callback never (Suc j) v = insertion_while callback never j v5"
      using True Suc.prems(2,3,4) v3(1)
      by (simp add: insertion_while.simps [of _ _ "Suc j"] Let_def bind_def v2_def v5_def)
    then show ?thesis
      using v' by simp
  qed
qed

lemma sorted_upto_mono: "sorted_upto i ds \<Longrightarrow> n \<le> i \<Longrightarrow> sorted_upto n ds"
  by (simp add: sorted_upto_def)

lemma sorted_upto_start: "sorted_upto i ds \<Longrightarrow> inserting i i ds"
  by (simp add: sorted_upto_def inserting_def)

lemma insertion_for_sorts:
  "lockstep since v \<Longrightarrow> running v \<Longrightarrow> n = length (data v) \<Longrightarrow> sorted_upto i (data v) \<Longrightarrow>
   \<exists>v'. insertion_for callback never [i..<n] v = Inr v' \<and> sorted_upto n (data v')"
proof (induction "n - i" arbitrary: i v)
  case 0
  then show ?case
    by (simp add: sorted_upto_mono)
next
  case (Suc k)
  then have i: "i < n"
    by simp
  define v2 where "v2 = highlight [int i] ''#fdd835'' (poll never v)"
  have v2: "lockstep since v2" "data v2 = data v" "running v2"
    using Suc.prems(1,2) by (simp_all add: v2_def highlight_lockstep)
  obtain v3 where v3: "insertion_while callback never i v2 = Inr v3" "running v3"
      "sorted_upto (Suc i) (data v3)"
    using insertion_while_sorts [of since v2 i i callback] v2 i Suc.prems(3,4)
    by (auto simp: sorted_upto_start)
  have more: "lockstep since v3" "length (data v3) = n"
    using insertion_while_ok [of since v2 i callback never] v2 i Suc.prems(3) v3(1)
    by (auto dest: mset_eq_length)
  have "\<exists>v'. insertion_for callback never [Suc i..<n] (reset_colors v3) = Inr v' \<and>
             sorted_upto n (data v')"
    using Suc.hyps(2) v3(2,3) more by (intro Suc.hyps(1)) (simp_all add: reset_colors_lockstep)
  moreover have "insertion_for callback never [i..<n] v =
                 insertion_for callback never [Suc i..<n] (reset_colors v3)"
    using i v3(1) Suc.prems(2) by (simp add: upt_conv_Cons Let_def bind_def v2_def)
  ultimately show ?case
    by simp
qed

lemma sorted_upto_length:
  "sorted_upto (length ds) ds \<Longrightarrow> sorted_wrt (\<lambda>a b. marks a \<le> marks b) ds"
  by (simp add: sorted_upto_def sorted_wrt_iff_nth_less)

lemma insertion_sort_sorts:
  assumes "lockstep since v"
  shows "\<exists>v'. insertion_sort callback never v = Inr v' \<and>
              sorted_wrt (\<lambda>a b. marks a \<le> marks b) (data v') \<and> mset (data v') = mset (data v)"
proof -
  obtain v1 where v1: "insertion_for callback never [1..<length (data v)] (v\<lparr>running := True\<rparr>) = Inr v1"
      "sorted_upto (length (data v)) (data v1)"
    using insertion_for_sorts [of since "v\<lparr>running := True\<rparr>" "length (data v)" 1 callback] assms
    by (auto simp: sorted_upto_def)
  have eq: "insertion_sort callback never v =
        Inr ((highlight (map int [0..<length (data v)]) ''#388e3c'' v1)\<lparr>running := False\<rparr>)"
    using v1(1) by (simp add: insertion_sort_def bind_def)
  then have perm: "mset (data v1) = mset (data v)"
    using insertion_sort_ok [OF assms, of callback never] by auto
  then have "length (data v1) = length (data v)"
    by (rule mset_eq_length)
  then show ?thesis
    using eq perm v1(2) sorted_upto_length [of "data v1"] by simp
qed

subsection \<open>Loading\<close>

lemma canvas_create_map:
  assumes "fresh c"
  shows "map_of (items (snd (canvas_create it c))) = (map_of (items c))(next_id c \<mapsto> it)"
proof -
  have "map_of (items c) (next_id c) = None"
    using assms by (auto simp: fresh_def map_of_eq_None_iff)
  then show ?thesis
    by (auto simp: canvas_create_def map_add_def fun_eq_iff split: option.splits)
qed

lemma canvas_create_fresh:
  "fresh c \<Longrightarrow> fresh (snd (canvas_create it c))"
  by (auto simp: fresh_def canvas_create_def less_Suc_eq)

lemma canvas_create_id [simp]:
  "fst (canvas_create it c) = next_id c" "next_id (snd (canvas_create it c)) = Suc (next_id c)"
  by (simp_all add: canvas_create_def)

lemma corresponds_mono:
  assumes "map_of its \<subseteq>\<^sub>m map_of its'" and "corresponds its h mx d b tn"
  shows "corresponds its' h mx d b tn"
proof -
  have "map_of its' k = Some it" if "map_of its k = Some it" for k it
    using assms(1) that by (metis domI map_le_def)
  then show ?thesis
    using assms(2) unfolding corresponds_def shows_bar_def shows_text_def
    by (auto split: option.splits)
qed

lemma draw_bars_fields:
  "data (draw_bars bw mx es v) = data v \<and> height (draw_bars bw mx es v) = height v \<and>
   frames (draw_bars bw mx es v) = frames v"
proof (induction es arbitrary: v)
  case Nil
  show ?case by simp
next
  case (Cons e es)
  obtain i d where e: "e = (i, d)"
    by (cases e)
  show ?case
    unfolding e by (simp add: Let_def split_beta Cons.IH)
qed

lemma draw_bars_drawn:
  "drawn mx pre v \<Longrightarrow> drawn mx (pre @ ds) (draw_bars bw mx (enumerate (length pre) ds) v)"
proof (induction ds arbitrary: pre v)
  case Nil
  then show ?case by simp
next
  case (Cons d ds)
  define x0 where "x0 = of_int (padding v) + of_nat (length pre) * (bw + 10)"
  define y1 :: rat where "y1 = of_int (height v - 40)"
  define y0 where "y0 = y1 - bar_height (height v) mx (marks d)"
  define r1 where "r1 = create_rectangle x0 y0 (x0 + bw) y1 ''#2b7a78'' (canvas v)"
  define r2 where "r2 = create_text (x0 + bw / 2) (y0 - 15) (str_int (marks d)) ''white'' (snd r1)"
  define r3 where "r3 = create_text (x0 + bw / 2) (y1 + 10) (name d) ''white'' (snd r2)"
  define w where "w = v\<lparr>canvas := snd r3, bar_items := bar_items v @ [fst r1],
                         text_items := text_items v @ [(fst r2, fst r3)]\<rparr>"
  have step: "draw_bars bw mx (enumerate (length pre) (d # ds)) v
              = draw_bars bw mx (enumerate (length (pre @ [d])) ds) w"
    by (simp add: Let_def split_beta w_def r3_def r2_def r1_def y0_def y1_def x0_def)
  have f0: "fresh (canvas v)"
    using Cons.prems by (simp add: drawn_def)
  have f1: "fresh (snd r1)" and f2: "fresh (snd r2)" and f3: "fresh (snd r3)"
    using f0 by (simp_all add: r1_def r2_def r3_def create_rectangle_def create_text_def
        canvas_create_fresh)
  let ?n = "next_id (canvas v)"
  have ids: "fst r1 = ?n" "fst r2 = Suc ?n" "fst r3 = Suc (Suc ?n)"
    by (simp_all add: r1_def r2_def r3_def create_rectangle_def create_text_def)
  have m1: "map_of (items (snd r1)) = (map_of (items (canvas v)))
      (?n \<mapsto> \<lparr>coords = [x0, y0, x0 + bw, y1], fill = ''#2b7a78'', item_text = []\<rparr>)"
    using f0 by (simp add: r1_def create_rectangle_def canvas_create_map)
  have m2: "map_of (items (snd r2)) = (map_of (items (snd r1)))
      (Suc ?n \<mapsto> \<lparr>coords = [x0 + bw / 2, y0 - 15], fill = ''white'', item_text = str_int (marks d)\<rparr>)"
    using f1 by (simp add: r2_def create_text_def canvas_create_map) (simp add: r1_def create_rectangle_def)
  have m3: "map_of (items (snd r3)) = (map_of (items (snd r2)))
      (Suc (Suc ?n) \<mapsto> \<lparr>coords = [x0 + bw / 2, y1 + 10], fill = ''white'', item_text = name d\<rparr>)"
    using f2 by (simp add: r3_def create_text_def canvas_create_map)
      (simp add: r2_def r1_def create_text_def create_rectangle_def)
  have none: "map_of (items (canvas v)) k = None" if "?n \<le> k" for k
    using f0 that by (fastforce simp: fresh_def map_of_eq_None_iff)
  have le: "map_of (items (canvas v)) \<subseteq>\<^sub>m map_of (items (snd r3))"
    unfolding m3 m2 m1 map_le_def using none by (auto simp: dom_def)
  have new: "corresponds (items (snd r3)) (height v) mx d ?n (Suc ?n, Suc (Suc ?n))"
    unfolding corresponds_def shows_bar_def shows_text_def m3 m2 m1
    by (simp add: y0_def)
  have "drawn mx (pre @ [d]) w"
    unfolding drawn_def
  proof (intro conjI allI impI)
    fix q
    assume q: "q < length (pre @ [d])"
    show "corresponds (items (canvas w)) (height w) mx ((pre @ [d]) ! q)
            (bar_items w ! q) (text_items w ! q)"
    proof (cases "q < length pre")
      case True
      then have "corresponds (items (canvas v)) (height v) mx (pre ! q)
            (bar_items v ! q) (text_items v ! q)"
        using Cons.prems by (simp add: drawn_def)
      then show ?thesis
        using True Cons.prems corresponds_mono [OF le]
        by (simp add: w_def nth_append drawn_def)
    next
      case False
      then have "q = length pre"
        using q by simp
      then show ?thesis
        using new Cons.prems by (simp add: w_def nth_append drawn_def ids)
    qed
  qed (use Cons.prems f3 in \<open>simp_all add: w_def drawn_def\<close>)
  from Cons.IH [OF this] show ?case
    unfolding step by simp
qed

lemma load_data_aligned:
  assumes "\<forall>f \<in> set (drop since (frames v)).
     aligned (height v) (shown_items f) (shown_data f) (shown_bars f) (shown_texts f)"
  shows "lockstep since (load_data rows v)"
proof (cases "rows = []")
  case True
  then show ?thesis
    using assms by (simp add: load_data_def lockstep_def aligned_def)
next
  case False
  define v1 where "v1 = v\<lparr>canvas := canvas_delete_all (canvas v), bar_items := [],
      text_items := [], data := rows\<rparr>"
  define bw :: rat where "bw = max 10 (of_int (max 100 (width v1 - 2 * padding v1)
      - (int (length rows) - 1) * 10) / of_nat (length rows))"
  define v2 where "v2 = draw_bars bw (max_val rows) (enumerate 0 rows) v1"
  have "drawn (max_val rows) [] v1"
    by (simp add: drawn_def v1_def fresh_def canvas_delete_all_def)
  from draw_bars_drawn [OF this, of rows bw]
  have d: "drawn (max_val rows) rows v2"
    by (simp add: v2_def)
  have "lockstep since v2"
    using d assms unfolding lockstep_def aligned_def drawn_def
    by (simp add: v2_def draw_bars_fields) (simp add: v1_def)
  moreover have "load_data rows v = redraw v2"
    using False by (simp add: load_data_def Let_def v2_def bw_def v1_def)
  ultimately show ?thesis
    by (simp add: lockstep_redraw)
qed

lemma load_data_lockstep: "lockstep since v \<Longrightarrow> lockstep since (load_data rows v)"
  by (rule load_data_aligned) (simp add: lockstep_def)

lemma load_data_fresh: "lockstep (length (frames v)) (load_data rows v)"
  by (rule load_data_aligned) simp

lemma load_data_data [simp]: "data (load_data rows v) = rows"
  by (simp add: load_data_def Let_def redraw_def draw_bars_fields)

lemma init_lockstep: "lockstep since (init_visualizer w h)"
  by (simp add: lockstep_def init_visualizer_def aligned_def)

subsection \<open>Selection sort\<close>

lemma selection_scan_ok:
  "lockstep since v \<Longrightarrow> \<forall>j \<in> set js. j < length (data v) \<Longrightarrow> m < length (data v) \<Longrightarrow>
   \<exists>m' v'. selection_scan stop_by i js m v = Inr (m', v') \<and> lockstep since v' \<and> data v' = data v \<and>
        bar_items v' = bar_items v \<and> text_items v' = text_items v \<and>
        progress v' = progress v \<and> m' < length (data v)"
proof (induction js arbitrary: m v)
  case Nil
  then show ?case by simp
next
  case (Cons j js)
  show ?case
  proof (cases "running (poll stop_by v)")
    case False
    then show ?thesis
      using Cons.prems(1,3) by simp
  next
    case True
    define v2 where "v2 = highlight [int j] ''#cc241d'' (poll stop_by v)"
    define m2 where "m2 = (if marks (data v2 ! j) < marks (data v2 ! m) then j else m)"
    define v3 where "v3 = highlight [int i, int m2] ''#fdd835'' (reset_colors v2)"
    have v2: "lockstep since v2" "data v2 = data v"
      using Cons.prems(1) by (simp_all add: v2_def highlight_lockstep)
    have v3: "lockstep since v3" "data v3 = data v" "bar_items v3 = bar_items v"
      "text_items v3 = text_items v" "progress v3 = progress v"
      using v2 by (simp_all add: v3_def v2_def highlight_lockstep reset_colors_lockstep)
    have m2: "m2 < length (data v)"
      using Cons.prems(2,3) by (simp add: m2_def)
    have "selection_scan stop_by i (j # js) m v = selection_scan stop_by i js m2 v3"
      using True Cons.prems(2,3) v2(2) by (simp add: Let_def v2_def [symmetric] m2_def v3_def)
    moreover have "\<exists>m' v'. selection_scan stop_by i js m2 v3 = Inr (m', v') \<and> lockstep since v' \<and>
        data v' = data v3 \<and> bar_items v' = bar_items v3 \<and> text_items v' = text_items v3 \<and>
        progress v' = progress v3 \<and> m' < length (data v3)"
      using v3 m2 Cons.prems(2) by (intro Cons.IH) simp_all
    ultimately show ?thesis
      using v3 by simp
  qed
qed

lemma selection_scan_min:
  "lockstep since v \<Longrightarrow> running v \<Longrightarrow> n = length (data v) \<Longrightarrow> j \<le> n \<Longrightarrow> least_min m i j (data v) \<Longrightarrow>
   \<exists>m' v'. selection_scan never i [j..<n] m v = Inr (m', v') \<and> running v' \<and>
        least_min m' i n (data v)"
proof (induction "n - j" arbitrary: j m v)
  case 0
  then show ?case by simp
next
  case (Suc k)
  let ?d = "data v"
  have j: "j < n"
    using Suc.hyps(2) by simp
  have m: "m < j" "i \<le> m"
    using Suc.prems(5) by (simp_all add: least_min_def)
  define v2 where "v2 = highlight [int j] ''#cc241d'' (poll never v)"
  define m2 where "m2 = (if marks (?d ! j) < marks (?d ! m) then j else m)"
  define v3 where "v3 = highlight [int i, int m2] ''#fdd835'' (reset_colors v2)"
  have v2: "lockstep since v2" "data v2 = ?d" "running v2"
    using Suc.prems(1,2) by (simp_all add: v2_def highlight_lockstep)
  have v3: "lockstep since v3" "data v3 = ?d" "running v3"
    using v2 by (simp_all add: v3_def highlight_lockstep reset_colors_lockstep)
  have lm: "least_min m2 i (Suc j) ?d"
  proof (cases "marks (?d ! j) < marks (?d ! m)")
    case True
    have "marks (?d ! j) \<le> marks (?d ! k)" if "i \<le> k" "k < Suc j" for k
    proof (cases "k = j")
      case False
      then have "marks (?d ! m) \<le> marks (?d ! k)"
        using Suc.prems(5) that by (simp add: least_min_def)
      then show ?thesis
        using True by simp
    qed simp
    moreover have "marks (?d ! j) < marks (?d ! k)" if "i \<le> k" "k < j" for k
    proof -
      have "marks (?d ! m) \<le> marks (?d ! k)"
        using Suc.prems(5) that by (simp add: least_min_def)
      then show ?thesis
        using True by simp
    qed
    ultimately show ?thesis
      using True m by (simp add: least_min_def m2_def)
  next
    case False
    have "marks (?d ! m) \<le> marks (?d ! k)" if "i \<le> k" "k < Suc j" for k
    proof (cases "k = j")
      case True
      then show ?thesis
        using False by simp
    next
      case False
      then show ?thesis
        using Suc.prems(5) that by (simp add: least_min_def)
    qed
    then show ?thesis
      using False m Suc.prems(5) by (simp add: least_min_def m2_def)
  qed
  have "selection_scan never i [j..<n] m v = selection_scan never i [Suc j..<n] m2 v3"
    using j m Suc.prems(2,3) v2(2)
    by (simp add: upt_conv_Cons Let_def v2_def [symmetric] m2_def v3_def)
  moreover have "\<exists>m' v'. selection_scan never i [Suc j..<n] m2 v3 = Inr (m', v') \<and> running v' \<and>
        least_min m' i n (data v3)"
    using Suc.hyps(2) v3 Suc.prems(3) j lm by (intro Suc.hyps(1)) simp_all
  ultimately show ?case
    using v3(2) by simp
qed

lemma selection_place_ok:
  assumes "lockstep since v" and "i < length (data v)" and "m < length (data v)"
  shows "\<exists>c v'. selection_place callback stop_by i m v = Inr (c, v') \<and> lockstep since v' \<and>
               mset (data v') = mset (data v)"
proof (cases "running (poll stop_by v) \<and> m \<noteq> i")
  case False
  then show ?thesis
    using assms(1) by (auto simp: selection_place_def bind_def Let_def highlight_lockstep)
next
  case True
  obtain v2 where v2: "swap_bars (int i) (int m) (poll stop_by v) = Inr v2" "lockstep since v2"
      "data v2 = (data v)[i := data v ! m, m := data v ! i]"
    using swap_bars_fields [of since "poll stop_by v" i m] assms True by auto
  have "mset (data v2) = mset (data v)"
    using v2(3) assms(2,3) by (simp add: mset_swap)
  then show ?thesis
    using True v2(1,2) by (auto simp: selection_place_def bind_def Let_def highlight_lockstep)
qed

lemma selection_place_swaps:
  assumes "lockstep since v" and "running v" and "i < length (data v)" and "m < length (data v)"
  shows "\<exists>v'. selection_place callback never i m v = Inr (True, v') \<and> running v' \<and>
    data v' = (data v)[i := data v ! m, m := data v ! i] \<and>
    bar_items v' = (bar_items v)[i := bar_items v ! m, m := bar_items v ! i] \<and>
    text_items v' = (text_items v)[i := text_items v ! m, m := text_items v ! i] \<and>
    progress v' = (if m \<noteq> i \<and> callback then progress v @ [data v'] else progress v) \<and>
    length (frames v') = length (frames v) + (if m \<noteq> i then 122 else 1)"
proof (cases "m = i")
  case True
  then show ?thesis
    using assms(2) by (simp add: selection_place_def bind_def Let_def)
next
  case False
  obtain v2 where v2: "swap_bars (int i) (int m) (poll never v) = Inr v2"
      "data v2 = (data v)[i := data v ! m, m := data v ! i]"
      "bar_items v2 = (bar_items v)[i := bar_items v ! m, m := bar_items v ! i]"
      "text_items v2 = (text_items v)[i := text_items v ! m, m := text_items v ! i]"
      "running v2" "progress v2 = progress v" "length (frames v2) = length (frames v) + 121"
    using swap_bars_fields [of since "poll never v" i m] assms False by auto
  have "progress (notify callback v2) = (if callback then progress v @ [data v2] else progress v)"
    using v2(6) by (simp add: notify_def)
  then show ?thesis
    using False assms(2) v2 by (simp add: selection_place_def bind_def Let_def)
qed

lemma selection_for_ok:
  "lockstep since v \<Longrightarrow> \<forall>i \<in> set indices. i < length (data v) \<Longrightarrow> n \<le> length (data v) \<Longrightarrow>
   \<exists>v'. selection_for callback stop_by n indices v = Inr v' \<and> lockstep since v' \<and>
        mset (data v') = mset (data v)"
proof (induction indices arbitrary: v)
  case Nil
  then show ?case by simp
next
  case (Cons i indices)
  show ?case
  proof (cases "running (poll stop_by v)")
    case False
    then show ?thesis
      using Cons.prems(1) by simp
  next
    case True
    define v2 where "v2 = highlight [int i] ''#fdd835'' (poll stop_by v)"
    have v2: "lockstep since v2" "data v2 = data v"
      using Cons.prems(1) by (simp_all add: v2_def highlight_lockstep)
    obtain m v3 where v3: "selection_scan stop_by i [i + 1..<n] i v2 = Inr (m, v3)" "lockstep since v3"
        "data v3 = data v" "m < length (data v)"
      using selection_scan_ok [of since v2 "[i + 1..<n]" i stop_by i] v2 Cons.prems(2,3) by auto
    obtain c v4 where v4: "selection_place callback stop_by i m v3 = Inr (c, v4)" "lockstep since v4"
        "mset (data v4) = mset (data v)"
      using selection_place_ok [of since v3 i m callback stop_by] v3 Cons.prems(2) by auto
    have len: "length (data v4) = length (data v)"
      using v4(3) by (rule mset_eq_length)
    have step: "selection_for callback stop_by n (i # indices) v =
          (if c then selection_for callback stop_by n indices v4 else Inr v4)"
      using True v3(1) v4(1) by (simp add: Let_def bind_def v2_def)
    show ?thesis
    proof (cases c)
      case False
      then show ?thesis
        using step v4(2,3) by simp
    next
      case True
      have "\<exists>v'. selection_for callback stop_by n indices v4 = Inr v' \<and> lockstep since v' \<and>
                 mset (data v') = mset (data v4)"
        using v4(2) len Cons.prems(2,3) by (intro Cons.IH) simp_all
      then show ?thesis
        using step True v4(3) by auto
    qed
  qed
qed

lemma selected_step:
  assumes "selected i n ds" and "least_min m i n ds" and "n = length ds"
  shows "selected (Suc i) n (ds[i := ds ! m, m := ds ! i])"
proof -
  define e where "e = ds[i := ds ! m, m := ds ! i]"
  have m: "i \<le> m" "m < n"
    using assms(2) by (simp_all add: least_min_def)
  have nth_e: "e ! k = (if k = m then ds ! i else if k = i then ds ! m else ds ! k)" if "k < n" for k
    using that m assms(3) unfolding e_def by (simp add: nth_list_update)
  have low: "e ! a = ds ! a" if "a < i" for a
    using that m nth_e [of a] by simp
  have mid: "e ! i = ds ! m"
    using m nth_e [of i] by simp
  have up: "\<exists>c. i \<le> c \<and> c < n \<and> e ! b = ds ! c" if "i \<le> b" "b < n" for b
  proof (cases "b = m")
    case True
    then have "e ! b = ds ! i"
      using nth_e [of b] that by simp
    then show ?thesis
      using m by (intro exI [of _ i]) simp
  next
    case False
    show ?thesis
    proof (cases "b = i")
      case True
      then show ?thesis
        using mid m by (intro exI [of _ m]) simp
    next
      case False
      then have "e ! b = ds ! b"
        using nth_e [of b] that \<open>b \<noteq> m\<close> by simp
      then show ?thesis
        using that by (intro exI [of _ b]) simp
    qed
  qed
  have least: "marks (ds ! m) \<le> marks (ds ! c)" if "i \<le> c" "c < n" for c
    using assms(2) that by (simp add: least_min_def)
  have before: "marks (ds ! a) \<le> marks (ds ! c)" if "a < i" "i \<le> c" "c < n" for a c
    using assms(1) that by (simp add: selected_def)
  have sorted: "marks (ds ! a) \<le> marks (ds ! b)" if "a < b" "b < i" for a b
    using assms(1) that by (simp add: selected_def sorted_upto_def)
  have one: "marks (e ! a) \<le> marks (e ! b)" if "a < b" "b < Suc i" for a b
  proof (cases "b = i")
    case True
    then have "a < i" using that by simp
    then show ?thesis
      using True low [of a] mid before [of a m] m by simp
  next
    case False
    then have "b < i" using that by simp
    moreover from this have "a < i" using that by simp
    ultimately show ?thesis
      using that(1) low [of a] low [of b] sorted [of a b] by simp
  qed
  have two: "marks (e ! a) \<le> marks (e ! b)" if "a < Suc i" "Suc i \<le> b" "b < n" for a b
  proof -
    have "i \<le> b"
      using that by simp
    from up [OF this that(3)] obtain c where c: "i \<le> c" "c < n" "e ! b = ds ! c"
      by blast
    show ?thesis
    proof (cases "a = i")
      case True
      have "marks (ds ! m) \<le> marks (ds ! c)"
        using c by (intro least)
      then show ?thesis
        unfolding True mid c(3) .
    next
      case False
      then have "a < i" using that by simp
      have "marks (ds ! a) \<le> marks (ds ! c)"
        using \<open>a < i\<close> c by (intro before)
      then show ?thesis
        unfolding low [OF \<open>a < i\<close>] c(3) .
    qed
  qed
  have "selected (Suc i) n e"
    unfolding selected_def sorted_upto_def using one two by blast
  then show ?thesis
    by (simp add: e_def)
qed

lemma selection_for_sorts:
  "lockstep since v \<Longrightarrow> running v \<Longrightarrow> n = length (data v) \<Longrightarrow> i \<le> n \<Longrightarrow> selected i n (data v) \<Longrightarrow>
   \<exists>v'. selection_for callback never n [i..<n] v = Inr v' \<and> sorted_upto n (data v')"
proof (induction "n - i" arbitrary: i v)
  case 0
  then show ?case
    by (simp add: selected_def)
next
  case (Suc k)
  then have i: "i < n"
    by simp
  define v2 where "v2 = highlight [int i] ''#fdd835'' (poll never v)"
  have v2: "lockstep since v2" "data v2 = data v" "running v2"
    using Suc.prems(1,2) by (simp_all add: v2_def highlight_lockstep)
  have "least_min i i (Suc i) (data v2)"
    unfolding least_min_def
  proof (intro conjI allI impI)
    fix k
    assume "i \<le> k \<and> k < Suc i"
    then have "k = i"
      by linarith
    then show "marks (data v2 ! i) \<le> marks (data v2 ! k)"
      by simp
  qed simp_all
  then obtain m v3 where v3: "selection_scan never i [i + 1..<n] i v2 = Inr (m, v3)"
      "running v3" "least_min m i n (data v)"
    using selection_scan_min [of since v2 n "Suc i" i i] v2 Suc.prems(3) i by auto
  have v3': "lockstep since v3" "data v3 = data v"
    using selection_scan_ok [of since v2 "[i + 1..<n]" i never i] v2 Suc.prems(3) i v3(1) by auto
  have m: "m < n"
    using v3(3) by (simp add: least_min_def)
  obtain v4 where v4: "selection_place callback never i m v3 = Inr (True, v4)" "running v4"
      "data v4 = (data v)[i := data v ! m, m := data v ! i]"
    using selection_place_swaps [of since v3 i m callback] v3(2) v3' i m Suc.prems(3) by auto
  have v4': "lockstep since v4"
    using selection_place_ok [of since v3 i m callback never] v3' i m Suc.prems(3) v4(1) by auto
  have sel: "selected (Suc i) n (data v4)"
    unfolding v4(3) using Suc.prems(5) v3(3) Suc.prems(3) by (rule selected_step)
  have "\<exists>v'. selection_for callback never n [Suc i..<n] v4 = Inr v' \<and> sorted_upto n (data v')"
    using Suc.hyps(2) v4(2) v4' sel i Suc.prems(3) by (intro Suc.hyps(1)) (simp_all add: v4(3))
  moreover have "selection_for callback never n [i..<n] v =
                 selection_for callback never n [Suc i..<n] v4"
    using i v3(1) v4(1) Suc.prems(2) by (simp add: upt_conv_Cons Let_def bind_def v2_def)
  ultimately show ?case
    by simp
qed

lemma selection_sort_ok:
  assumes "lockstep since v"
  shows "\<exists>v'. selection_sort callback stop_by v = Inr v' \<and> lockstep since v' \<and>
              mset (data v') = mset (data v) \<and> \<not> running v'"
proof -
  obtain v1 where v1:
      "selection_for callback stop_by (length (data v)) [0..<length (data v)] (v\<lparr>running := True\<rparr>) = Inr v1"
      "lockstep since v1" "mset (data v1) = mset (data v)"
    using selection_for_ok [of since "v\<lparr>running := True\<rparr>" "[0..<length (data v)]" "length (data v)"
        callback stop_by] assms
    by auto
  have "selection_sort callback stop_by v =
        Inr ((highlight (map int [0..<length (data v)]) ''#388e3c'' v1)\<lparr>running := False\<rparr>)"
    using v1(1) by (simp add: selection_sort_def bind_def)
  then show ?thesis
    using v1(2,3) by (simp add: highlight_lockstep)
qed

lemma selection_sort_sorts:
  assumes "lockstep since v"
  shows "\<exists>v'. selection_sort callback never v = Inr v' \<and>
              sorted_wrt (\<lambda>a b. marks a \<le> marks b) (data v') \<and> mset (data v') = mset (data v)"
proof -
  obtain v1 where v1:
      "selection_for callback never (length (data v)) [0..<length (data v)] (v\<lparr>running := True\<rparr>) = Inr v1"
      "sorted_upto (length (data v)) (data v1)"
    using selection_for_sorts [of since "v\<lparr>running := True\<rparr>" "length (data v)" 0 callback] assms
    by (auto simp: selected_def sorted_upto_def)
  have eq: "selection_sort callback never v =
        Inr ((highlight (map int [0..<length (data v)]) ''#388e3c'' v1)\<lparr>running := False\<rparr>)"
    using v1(1) by (simp add: selection_sort_def bind_def)
  then have perm: "mset (data v1) = mset (data v)"
    using selection_sort_ok [OF assms, of callback never] by auto
  then have "length (data v1) = length (data v)"
    by (rule mset_eq_length)
  then show ?thesis
    using eq perm v1(2) sorted_upto_length [of "data v1"] by simp
qed

subsection \<open>Reachable states\<close>

lemma swap_bars_noop:
  "i = j \<or> \<not> (0 \<le> i \<and> i < int (length (bar_items v)) \<and> 0 \<le> j \<and> j < int (length (bar_items v)))
   \<Longrightarrow> swap_bars i j v = Inr v"
  by (auto simp: swap_bars_def)

lemma swap_bars_lockstep:
  assumes "lockstep since v" and "swap_bars i j v = Inr v'"
  shows "lockstep since v'"
proof (cases "i = j \<or> \<not> (0 \<le> i \<and> i < int (length (bar_items v)) \<and> 0 \<le> j \<and> j < int (length (bar_items v)))")
  case True
  then show ?thesis
    using assms swap_bars_noop [of i j v] by simp
next
  case False
  then have "nat i \<noteq> nat j" "nat i < length (data v)" "nat j < length (data v)"
    using assms(1) by (auto simp: lockstep_lengths)
  from swap_bars_fields [OF assms(1) this]
  obtain w where "swap_bars (int (nat i)) (int (nat j)) v = Inr w" "lockstep since w"
    by blast
  then show ?thesis
    using assms(2) False by simp
qed

lemma reachable_lockstep: "reachable v \<Longrightarrow> lockstep 0 v"
proof (induction rule: reachable.induct)
  case (init w h)
  show ?case by (rule init_lockstep)
next
  case (load v rows)
  then show ?case by (simp add: load_data_lockstep)
next
  case (move v index dx dy steps v')
  then show ?case using move_bar_ok [of 0 v index dx dy steps] by auto
next
  case (swap v i j v')
  then show ?case using swap_bars_lockstep by blast
next
  case (highlight v indices color)
  then show ?case by (simp add: highlight_lockstep)
next
  case (reset v)
  then show ?case by (simp add: reset_colors_lockstep)
next
  case (insertion v callback stop_by v')
  then show ?case using insertion_sort_ok [of 0 v callback stop_by] by auto
next
  case (selection v callback stop_by v')
  then show ?case using selection_sort_ok [of 0 v callback stop_by] by auto
next
  case (stop v)
  then show ?case by (simp add: stop_def)
qed

subsection \<open>The final highlight\<close>

lemma fill_at_itemconfig:
  "fill_at (canvas_itemconfig t col c) b =
     (if b = t \<and> fill_at c b \<noteq> None then Some col else fill_at c b)"
  by (auto simp: fill_at_def canvas_itemconfig_def map_of_map_entry split: option.splits)

lemma highlight_loop_fields [simp]:
  "bar_items (highlight_loop indices col v) = bar_items v"
  using paints_fields [OF highlight_loop_paints] by simp

lemma highlight_loop_keeps:
  "fill_at (canvas v) b = Some col \<Longrightarrow>
   fill_at (canvas (highlight_loop indices col v)) b = Some col"
proof (induction indices arbitrary: v)
  case Nil
  then show ?case by simp
next
  case (Cons a indices)
  define w where "w = (if 0 \<le> a \<and> a < int (length (bar_items v))
        then v\<lparr>canvas := canvas_itemconfig (bar_items v ! nat a) col (canvas v)\<rparr> else v)"
  have step: "highlight_loop (a # indices) col v = highlight_loop indices col w"
    by (simp add: w_def)
  have "fill_at (canvas w) b = Some col"
    using Cons.prems by (simp add: w_def fill_at_itemconfig)
  then show ?case
    unfolding step by (rule Cons.IH)
qed

lemma highlight_loop_sets:
  "i \<in> set indices \<Longrightarrow> 0 \<le> i \<Longrightarrow> i < int (length (bar_items v)) \<Longrightarrow>
   fill_at (canvas v) (bar_items v ! nat i) \<noteq> None \<Longrightarrow>
   fill_at (canvas (highlight_loop indices col v)) (bar_items v ! nat i) = Some col"
proof (induction indices arbitrary: v)
  case Nil
  then show ?case by simp
next
  case (Cons a indices)
  define w where "w = (if 0 \<le> a \<and> a < int (length (bar_items v))
        then v\<lparr>canvas := canvas_itemconfig (bar_items v ! nat a) col (canvas v)\<rparr> else v)"
  have step: "highlight_loop (a # indices) col v = highlight_loop indices col w"
    by (simp add: w_def)
  have w: "bar_items w = bar_items v" "fill_at (canvas w) (bar_items v ! nat i) \<noteq> None"
    using Cons.prems(4) by (simp_all add: w_def fill_at_itemconfig)
  show ?case
  proof (cases "a = i")
    case True
    have "fill_at (canvas w) (bar_items v ! nat i) = Some col"
      using True Cons.prems(2,3,4) by (simp add: w_def fill_at_itemconfig)
    then show ?thesis
      unfolding step by (rule highlight_loop_keeps)
  next
    case False
    then have "i \<in> set indices"
      using Cons.prems(1) by simp
    from Cons.IH [OF this, of w] show ?thesis
      unfolding step using w Cons.prems(2,3) by simp
  qed
qed

lemma lockstep_bar_exists:
  "lockstep since v \<Longrightarrow> k < length (data v) \<Longrightarrow> fill_at (canvas v) (bar_items v ! k) \<noteq> None"
  by (auto simp: lockstep_def aligned_def corresponds_def shows_bar_def fill_at_def
      split: option.splits)

lemma highlight_all:
  assumes "lockstep since v" and "k < length (data v)"
  shows "bar_fill ((highlight (map int [0..<length (data v)]) col v)\<lparr>running := r\<rparr>) k = Some col"
proof -
  have "int k \<in> set (map int [0..<length (data v)])"
    using assms(2) by simp
  moreover have "int k < int (length (bar_items v))"
    using assms by (simp add: lockstep_lengths)
  ultimately have "fill_at (canvas (highlight_loop (map int [0..<length (data v)]) col v))
      (bar_items v ! nat (int k)) = Some col"
    using lockstep_bar_exists [OF assms] by (intro highlight_loop_sets) simp_all
  then show ?thesis
    by (simp add: bar_fill_def highlight_def redraw_def)
qed

subsection \<open>No error where the lists are in lockstep\<close>

lemma swap_bars_returns:
  assumes "lockstep since v"
  shows "\<exists>v'. swap_bars i j v = Inr v'"
proof (cases "i = j \<or> \<not> (0 \<le> i \<and> i < int (length (bar_items v)) \<and> 0 \<le> j \<and> j < int (length (bar_items v)))")
  case True
  then show ?thesis
    using swap_bars_noop [of i j v] by simp
next
  case False
  then have "nat i \<noteq> nat j" "nat i < length (data v)" "nat j < length (data v)"
    using assms by (auto simp: lockstep_lengths)
  from swap_bars_fields [OF assms this]
  obtain w where "swap_bars (int (nat i)) (int (nat j)) v = Inr w"
    by blast
  then show ?thesis
    using False by simp
qed

lemma move_bar_returns:
  assumes "lockstep since v"
  shows "\<exists>v'. move_bar index dx dy steps v = Inr v'"
  using move_bar_ok [OF assms, of index dx dy steps] by blast

lemma move_bar_short_texts:
  assumes "0 \<le> index" and "index < int (length (bar_items v))"
    and "length (text_items v) \<le> nat index" and "0 < steps"
  shows "move_bar index dx dy steps v = Inl IndexError"
proof -
  obtain k where "steps = Suc k"
    using assms(4) by (cases steps) simp_all
  then show ?thesis
    using assms(1,2,3) by (simp add: move_bar_def)
qed

subsection \<open>The sample state\<close>

lemma loaded_lists:
  "data loaded = [row_a, row_b, row_c]" "bar_items loaded = [1, 4, 7]"
  "text_items loaded = [(2, 3), (5, 6), (8, 9)]" "progress loaded = []"
  by (simp_all add: loaded_def load_data_def init_visualizer_def Let_def canvas_delete_all_def
      create_rectangle_def create_text_def canvas_create_def redraw_def)

lemma loaded_reachable: "reachable loaded"
  unfolding loaded_def by (intro reachable.load reachable.init)

lemma sample_rows_sorted:
  assumes "sorted_wrt (\<lambda>a b. marks a \<le> marks b) xs" and "mset xs = mset [row_a, row_b, row_c]"
  shows "xs = [row_b, row_c, row_a]"
proof -
  have "mset (map marks xs) = mset (map marks [row_a, row_b, row_c])"
    using assms(2) by (simp only: mset_map)
  moreover have "sorted (map marks xs)"
    using assms(1) by (simp add: sorted_map)
  ultimately have "sort (map marks [row_a, row_b, row_c]) = map marks xs"
    by (rule properties_for_sort)
  then have keys: "map marks xs = [10, 20, 30]"
    by (simp add: row_a_def row_b_def row_c_def)
  then obtain x y z where xs: "xs = [x, y, z]" "marks x = 10" "marks y = 20" "marks z = 30"
    by auto
  have "set xs = {row_a, row_b, row_c}"
    using mset_eq_setD [OF assms(2)] by simp
  then have mem: "x \<in> {row_a, row_b, row_c}" "y \<in> {row_a, row_b, row_c}"
    "z \<in> {row_a, row_b, row_c}"
    unfolding xs(1) by auto
  have "x = row_b"
    using mem(1) xs(2) by (auto simp: row_a_def row_c_def)
  moreover have "y = row_c"
    using mem(2) xs(3) by (auto simp: row_a_def row_b_def)
  moreover have "z = row_a"
    using mem(3) xs(4) by (auto simp: row_b_def row_c_def)
  ultimately show ?thesis
    by (simp add: xs(1))
qed

section \<open>The claims\<close>

text \<open>
  Claim C1. For every list of rows, a run of \<open>insertion_sort\<close> or of \<open>selection_sort\<close>
  on the loaded rows that is never cancelled returns, and leaves \<open>data\<close> in
  non-decreasing order of marks and a permutation of the rows. The state before the
  load is arbitrary.
\<close>

theorem sort_correct:
  "(\<exists>v'. insertion_sort callback never (load_data rows v) = Inr v' \<and>
         sorted_wrt (\<lambda>a b. marks a \<le> marks b) (data v') \<and> mset (data v') = mset rows) \<and>
   (\<exists>v'. selection_sort callback never (load_data rows v) = Inr v' \<and>
         sorted_wrt (\<lambda>a b. marks a \<le> marks b) (data v') \<and> mset (data v') = mset rows)"
  using insertion_sort_sorts [OF load_data_fresh, of callback rows v]
    selection_sort_sorts [OF load_data_fresh, of callback rows v]
  by simp

text \<open>The three sample rows 30, 10, 20: both sorts leave them in the order 10, 20, 30.\<close>

theorem sort_correct_witness:
  "(\<exists>v'. insertion_sort True never loaded = Inr v' \<and> data v' = [row_b, row_c, row_a]) \<and>
   (\<exists>v'. selection_sort True never loaded = Inr v' \<and> data v' = [row_b, row_c, row_a])"
proof -
  note t = sort_correct [of True "[row_a, row_b, row_c]" "init_visualizer 620 360", folded loaded_def]
  from t obtain v1 where v1: "insertion_sort True never loaded = Inr v1"
      "sorted_wrt (\<lambda>a b. marks a \<le> marks b) (data v1)"
      "mset (data v1) = mset [row_a, row_b, row_c]"
    by blast
  from t obtain v2 where v2: "selection_sort True never loaded = Inr v2"
      "sorted_wrt (\<lambda>a b. marks a \<le> marks b) (data v2)"
      "mset (data v2) = mset [row_a, row_b, row_c]"
    by blast
  show ?thesis
    using v1(1) v2(1) sample_rows_sorted [OF v1(2,3)] sample_rows_sorted [OF v2(2,3)] by simp
qed

text \<open>
  Claim C3. Whenever \<open>stop()\<close> takes effect (\<open>stop_by\<close> is arbitrary), both sorts return and
  \<open>data\<close> is still a permutation of the rows that were loaded.
\<close>

theorem cancelled_permutation:
  "(\<exists>v'. insertion_sort callback stop_by (load_data rows v) = Inr v' \<and>
         mset (data v') = mset rows) \<and>
   (\<exists>v'. selection_sort callback stop_by (load_data rows v) = Inr v' \<and>
         mset (data v') = mset rows)"
  using insertion_sort_ok [OF load_data_fresh, of callback stop_by rows v]
    selection_sort_ok [OF load_data_fresh, of callback stop_by rows v]
  by auto

text \<open>A stop that is seen at the third read of the flag: insertion sort has made one
  swap by then and leaves the rows in the order 10, 30, 20.\<close>

theorem cancelled_permutation_witness:
  "(\<exists>v'. insertion_sort True (\<lambda>t. 2 \<le> t) loaded = Inr v' \<and> data v' = [row_b, row_a, row_c] \<and>
         mset (data v') = mset [row_a, row_b, row_c]) \<and>
   (\<exists>v'. selection_sort True (\<lambda>t. 2 \<le> t) loaded = Inr v' \<and>
         mset (data v') = mset [row_a, row_b, row_c])"
proof -
  define sb where "sb = (\<lambda>t::nat. 2 \<le> t)"
  define v0 where "v0 = loaded\<lparr>running := True\<rparr>"
  define v1 where "v1 = highlight [int 1] ''#fdd835'' (poll sb v0)"
  define v2 where "v2 = highlight [int 1, int 1 - 1] ''#cc241d'' (poll sb v1)"
  have t0: "tick loaded = 0"
    by (simp add: loaded_def load_data_def init_visualizer_def Let_def canvas_delete_all_def
        create_rectangle_def create_text_def canvas_create_def redraw_def)
  have v0: "lockstep 0 v0" "data v0 = [row_a, row_b, row_c]" "running v0" "tick v0 = 0"
    using reachable_lockstep [OF loaded_reachable] by (simp_all add: v0_def loaded_lists t0)
  have v1: "lockstep 0 v1" "data v1 = [row_a, row_b, row_c]" "running v1" "tick v1 = 1"
    using v0 by (simp_all add: v1_def highlight_lockstep) (simp_all add: poll_def sb_def)
  have v2: "lockstep 0 v2" "data v2 = [row_a, row_b, row_c]" "running v2" "tick v2 = 2"
    using v1 by (simp_all add: v2_def highlight_lockstep) (simp_all add: poll_def sb_def)
  obtain v3 where v3: "swap_bars (int 1) (int 0) v2 = Inr v3" "lockstep 0 v3"
      "data v3 = [row_b, row_a, row_c]" "running v3" "tick v3 = 2"
    using swap_bars_fields [of 0 v2 1 0] v2 by auto
  define v5 where "v5 = notify True (highlight [int 1 - 1] ''#66bb6a'' v3)"
  have v5: "data v5 = [row_b, row_a, row_c]" "running v5" "tick v5 = 2"
    using v3 by (simp_all add: v5_def) (simp add: notify_def)
  have rp: "running (poll sb v1)"
    using v1 by (simp add: poll_def sb_def)
  have v2_eq: "highlight [1, 0] ''#cc241d'' (poll sb v1) = v2"
    by (simp add: v2_def)
  have inner: "insertion_while True sb 1 v1 = Inr v5"
    using v1(2) v3(1) rp
    by (simp add: insertion_while.simps [of _ _ "Suc 0"] insertion_while.simps [of _ _ 0]
        Let_def bind_def v2_eq v5_def row_a_def row_b_def)
  have "tick (reset_colors v5) = 2" "running (reset_colors v5)"
    using v5 by simp_all
  then have "\<not> running (poll sb (reset_colors v5))"
    by (simp add: poll_def sb_def)
  moreover have "highlight [1] ''#fdd835'' (poll sb v0) = v1"
    by (simp add: v1_def)
  moreover have "running (poll sb v0)"
    using v0 by (simp add: poll_def sb_def)
  ultimately have outer: "insertion_for True sb [1, 2] v0 = Inr (poll sb (reset_colors v5))"
    using inner by (simp add: Let_def bind_def)
  have "[1..<length (data loaded)] = [1, 2]"
    by (simp add: loaded_lists upt_conv_Cons)
  then have "insertion_sort True sb loaded =
      Inr ((highlight (map int [0..<length (data loaded)]) ''#388e3c''
             (poll sb (reset_colors v5)))\<lparr>running := False\<rparr>)"
    using outer by (simp add: insertion_sort_def bind_def v0_def)
  then have run: "\<exists>v'. insertion_sort True sb loaded = Inr v' \<and> data v' = [row_b, row_a, row_c]"
    using v5(1) by simp
  show ?thesis
    using run cancelled_permutation [of True sb "[row_a, row_b, row_c]" "init_visualizer 620 360"]
    unfolding loaded_def [symmetric] sb_def by auto
qed

text \<open>
  Claim C5. \<open>get_speed\<close> is \<open>max(0.001, (101 - val) / 700)\<close>; a larger slider value never
  gives a longer delay, and the delay is at least 0.001, so positive. The arithmetic is
  exact here, the source's is floating point.
\<close>

theorem get_speed_antitone:
  "get_speed val = max (1 / 1000) ((101 - val) / 700) \<and>
   (a < b \<longrightarrow> get_speed b \<le> get_speed a) \<and>
   1 / 1000 \<le> get_speed val \<and> 0 < get_speed val"
  by (auto simp: get_speed_def max_def divide_le_cancel)

text \<open>The slider's default 40, its maximum 100, and a value past the range, where the
  floor applies.\<close>

theorem get_speed_antitone_witness:
  "get_speed 40 = 61 / 700 \<and> get_speed 100 = 1 / 700 \<and> get_speed 100 \<le> get_speed 40 \<and>
   get_speed 200 = 1 / 1000 \<and> 0 < get_speed 200"
  using get_speed_antitone [of 40 40 100] get_speed_antitone [of 100] get_speed_antitone [of 200]
  by simp

text \<open>
  Claim C8. \<open>swap_bars(i, i)\<close> and \<open>swap_bars\<close> with an index out of range return normally
  and leave the whole state as it was: \<open>data\<close>, both handle lists, the canvas with
  every position, and no redraw.
\<close>

theorem swap_bars_noop_cases:
  "swap_bars i i v = Inr v \<and>
   (\<not> (0 \<le> i \<and> i < int (length (bar_items v)) \<and> 0 \<le> j \<and> j < int (length (bar_items v)))
     \<longrightarrow> swap_bars i j v = Inr v)"
  by (simp add: swap_bars_noop)

text \<open>On three loaded rows: a self-swap, an index too large and a negative index.\<close>

theorem swap_bars_noop_cases_witness:
  "swap_bars 1 1 loaded = Inr loaded \<and> swap_bars 0 5 loaded = Inr loaded \<and>
   swap_bars (- 1) 0 loaded = Inr loaded"
  using swap_bars_noop_cases [of 1 loaded] swap_bars_noop_cases [of 0 loaded 5]
    swap_bars_noop_cases [of "- 1" loaded 0]
  by (simp add: loaded_lists)

text \<open>
  Claim C4. While the sort thread is alive, \<open>start_insertion_sort\<close> and
  \<open>start_selection_sort\<close> answer "Already running." and leave the application as it
  was: no reload of the visualizer, no new thread, the label and the thread untouched.
\<close>

theorem start_while_running:
  "is_alive (sort_thread app) \<Longrightarrow>
   start_insertion_sort app = (ShowInfo ''Sorting'' ''Already running.'', app) \<and>
   start_selection_sort app = (ShowInfo ''Sorting'' ''Already running.'', app)"
  by (simp add: start_insertion_sort_def start_selection_sort_def)

text \<open>An application whose thread is alive.\<close>

theorem start_while_running_witness:
  "is_alive (sort_thread busy_app) \<and>
   start_insertion_sort busy_app = (ShowInfo ''Sorting'' ''Already running.'', busy_app) \<and>
   start_selection_sort busy_app = (ShowInfo ''Sorting'' ''Already running.'', busy_app)"
proof -
  have h: "is_alive (sort_thread busy_app)"
    by (simp add: busy_app_def is_alive_def)
  show ?thesis
    using h start_while_running [OF h] by simp
qed




text \<open>
  Claim C6, as stated, fails: \<open>swap_bars(0, 5)\<close> on three rows returns normally with the
  state unchanged, where the claim asks for an index error.
\<close>

theorem out_of_range_swap_returns:
  "swap_bars 0 5 loaded = Inr loaded \<and> swap_bars 0 5 loaded \<noteq> Inl IndexError"
  using swap_bars_noop [of 0 5 loaded] by (simp add: loaded_lists)

text \<open>
  Claim C6, amended. \<open>move_bar\<close>, \<open>swap_bars\<close> and \<open>highlight\<close> guard their indices: an
  index outside the range of \<open>bar_items\<close> is skipped without an error and without a
  change (\<open>highlight\<close> still redraws). An \<open>IndexError\<close> comes from a list read past the
  end that no guard covers: \<open>self.data[j]\<close> in the loop of \<open>insertion_sort\<close> with \<open>j\<close> at
  or past the length of \<open>data\<close>, and \<open>self.text_items[index]\<close> in \<open>move_bar\<close> when
  \<open>text_items\<close> is shorter than \<open>bar_items\<close>. In a reachable state \<open>move_bar\<close> and
  \<open>swap_bars\<close> return normally whatever the indices.
\<close>

theorem index_guards:
  "(\<not> (0 \<le> i \<and> i < int (length (bar_items v))) \<longrightarrow>
      move_bar i dx dy steps v = Inr v \<and> swap_bars i j v = Inr v \<and> swap_bars j i v = Inr v \<and>
      highlight [i] color v = redraw v) \<and>
   (0 < k \<and> length (data v) \<le> k \<longrightarrow> insertion_while callback stop_by k v = Inl IndexError) \<and>
   (0 \<le> i \<and> i < int (length (bar_items v)) \<and> length (text_items v) \<le> nat i \<and> 0 < steps \<longrightarrow>
      move_bar i dx dy steps v = Inl IndexError) \<and>
   (reachable v \<longrightarrow>
      (\<exists>v'. move_bar i dx dy steps v = Inr v') \<and> (\<exists>v'. swap_bars i j v = Inr v'))"
proof -
  have "insertion_while callback stop_by k v = Inl IndexError" if "0 < k \<and> length (data v) \<le> k"
    using that by (simp add: insertion_while.simps [of _ _ k])
  moreover have "move_bar i dx dy steps v = Inr v \<and> swap_bars i j v = Inr v \<and>
      swap_bars j i v = Inr v \<and> highlight [i] color v = redraw v"
    if "\<not> (0 \<le> i \<and> i < int (length (bar_items v)))"
    using that swap_bars_noop [of i j v] swap_bars_noop [of j i v]
    by (auto simp: move_bar_def highlight_def)
  moreover have "move_bar i dx dy steps v = Inl IndexError"
    if "0 \<le> i \<and> i < int (length (bar_items v)) \<and> length (text_items v) \<le> nat i \<and> 0 < steps"
    using that by (intro move_bar_short_texts) simp_all
  moreover have "(\<exists>v'. move_bar i dx dy steps v = Inr v') \<and> (\<exists>v'. swap_bars i j v = Inr v')"
    if "reachable v"
    using reachable_lockstep [OF that] move_bar_returns swap_bars_returns by blast
  ultimately show ?thesis
    by blast
qed

text \<open>On three loaded rows, and on the same state with \<open>text_items\<close> emptied.\<close>

theorem index_guards_witness:
  "move_bar 5 1 1 20 loaded = Inr loaded \<and> swap_bars (- 1) 2 loaded = Inr loaded \<and>
   swap_bars 2 (- 1) loaded = Inr loaded \<and> highlight [3] ''#cc241d'' loaded = redraw loaded \<and>
   insertion_while True never 3 loaded = Inl IndexError \<and>
   move_bar 0 1 1 20 (loaded\<lparr>text_items := []\<rparr>) = Inl IndexError \<and>
   (\<exists>v'. move_bar 1 5 0 20 loaded = Inr v') \<and> (\<exists>v'. swap_bars 0 2 loaded = Inr v')"
proof -
  have out: "move_bar 5 1 1 20 loaded = Inr loaded"
      "highlight [3] ''#cc241d'' loaded = redraw loaded"
      "insertion_while True never 3 loaded = Inl IndexError"
    using index_guards [where i = 5 and v = loaded and dx = 1 and dy = 1 and steps = 20 and j = 0
        and color = "''#cc241d''" and k = 3 and callback = True and stop_by = never]
      index_guards [where i = 3 and v = loaded and dx = 1 and dy = 1 and steps = 20 and j = 0
        and color = "''#cc241d''" and k = 3 and callback = True and stop_by = never]
    by (simp_all add: loaded_lists)
  have neg: "swap_bars (- 1) 2 loaded = Inr loaded" "swap_bars 2 (- 1) loaded = Inr loaded"
    using index_guards [where i = "- 1" and v = loaded and dx = 1 and dy = 1 and steps = 20
        and j = 2 and color = "''#cc241d''" and k = 3 and callback = True and stop_by = never]
    by simp_all
  have short: "move_bar 0 1 1 20 (loaded\<lparr>text_items := []\<rparr>) = Inl IndexError"
    using index_guards [where i = 0 and v = "loaded\<lparr>text_items := []\<rparr>" and dx = 1 and dy = 1
        and steps = 20 and j = 0 and color = "''#cc241d''" and k = 3 and callback = True
        and stop_by = never]
    by (simp add: loaded_lists)
  have ok: "(\<exists>v'. move_bar 1 5 0 20 loaded = Inr v') \<and> (\<exists>v'. swap_bars 0 2 loaded = Inr v')"
    using index_guards [where i = 1 and v = loaded and dx = 5 and dy = 0 and steps = 20
        and j = 2 and color = "''#cc241d''" and k = 3 and callback = True and stop_by = never]
      index_guards [where i = 0 and v = loaded and dx = 5 and dy = 0 and steps = 20
        and j = 2 and color = "''#cc241d''" and k = 3 and callback = True and stop_by = never]
      loaded_reachable
    by blast
  show ?thesis
    using out neg short ok by blast
qed

text \<open>
  Claim C2. In every reachable state the three lists have one length and the handles at
  each index correspond to the record there; the same held at every redraw so far
  (\<open>frames\<close> has one snapshot per \<open>canvas.update()\<close>, those inside \<open>move_bar\<close> and the
  sorts included); and \<open>swap_bars\<close> on two valid indices returns with all three lists
  exchanged at the same two positions. The three assignments of \<open>swap_bars\<close> have no
  redraw and no callback between them. A thread that preempts the sort between them is
  outside this model.
\<close>

theorem handles_in_lockstep:
  "reachable v \<Longrightarrow>
   length (bar_items v) = length (data v) \<and> length (text_items v) = length (data v) \<and>
   aligned (height v) (items (canvas v)) (data v) (bar_items v) (text_items v) \<and>
   (\<forall>f \<in> set (frames v).
      aligned (height v) (shown_items f) (shown_data f) (shown_bars f) (shown_texts f)) \<and>
   (\<forall>i j. i < length (data v) \<and> j < length (data v) \<longrightarrow>
      (\<exists>v'. swap_bars (int i) (int j) v = Inr v' \<and>
            data v' = (data v)[i := data v ! j, j := data v ! i] \<and>
            bar_items v' = (bar_items v)[i := bar_items v ! j, j := bar_items v ! i] \<and>
            text_items v' = (text_items v)[i := text_items v ! j, j := text_items v ! i]))"
proof -
  assume "reachable v"
  then have l: "lockstep 0 v"
    by (rule reachable_lockstep)
  have "\<exists>v'. swap_bars (int i) (int j) v = Inr v' \<and>
            data v' = (data v)[i := data v ! j, j := data v ! i] \<and>
            bar_items v' = (bar_items v)[i := bar_items v ! j, j := bar_items v ! i] \<and>
            text_items v' = (text_items v)[i := text_items v ! j, j := text_items v ! i]"
    if "i < length (data v) \<and> j < length (data v)" for i j
  proof (cases "i = j")
    case True
    then show ?thesis
      using swap_bars_noop [of "int i" "int j" v] by simp
  next
    case False
    from swap_bars_fields [OF l False] that show ?thesis
      by metis
  qed
  then show ?thesis
    using l lockstep_lengths [OF l] by (simp add: lockstep_def)
qed

text \<open>Three loaded rows, and the swap of the first and the last.\<close>

theorem handles_in_lockstep_witness:
  "reachable loaded \<and>
   length (bar_items loaded) = 3 \<and> length (text_items loaded) = 3 \<and>
   aligned (height loaded) (items (canvas loaded)) (data loaded) (bar_items loaded)
     (text_items loaded) \<and>
   list_all (\<lambda>f. aligned (height loaded) (shown_items f) (shown_data f) (shown_bars f)
     (shown_texts f)) (frames loaded) \<and>
   (\<exists>v'. swap_bars 0 2 loaded = Inr v' \<and> data v' = [row_c, row_b, row_a] \<and>
         bar_items v' = [7, 4, 1] \<and> text_items v' = [(8, 9), (5, 6), (2, 3)])"
proof -
  note h = handles_in_lockstep [OF loaded_reachable]
  have lens: "length (bar_items loaded) = 3 \<and> length (text_items loaded) = 3"
    using h by (simp add: loaded_lists)
  have now: "aligned (height loaded) (items (canvas loaded)) (data loaded) (bar_items loaded)
     (text_items loaded)"
    using h by (elim conjE)
  have shown: "list_all (\<lambda>f. aligned (height loaded) (shown_items f) (shown_data f)
     (shown_bars f) (shown_texts f)) (frames loaded)"
    using h unfolding list_all_iff by (elim conjE)
  have "\<exists>v'. swap_bars (int 0) (int 2) loaded = Inr v' \<and>
      data v' = (data loaded)[0 := data loaded ! 2, 2 := data loaded ! 0] \<and>
      bar_items v' = (bar_items loaded)[0 := bar_items loaded ! 2, 2 := bar_items loaded ! 0] \<and>
      text_items v' = (text_items loaded)[0 := text_items loaded ! 2, 2 := text_items loaded ! 0]"
    using h [THEN conjunct2, THEN conjunct2, THEN conjunct2, THEN conjunct2, rule_format, of 0 2]
    by (simp add: loaded_lists)
  then have swapped: "\<exists>v'. swap_bars 0 2 loaded = Inr v' \<and> data v' = [row_c, row_b, row_a] \<and>
         bar_items v' = [7, 4, 1] \<and> text_items v' = [(8, 9), (5, 6), (2, 3)]"
    by (simp add: loaded_lists)
  show ?thesis
    using loaded_reachable lens now shown swapped by blast
qed

text \<open>
  Claim C10. From every reachable state, with or without cancellation, both sorts return
  with \<open>running\<close> false and every bar filled with the colour of the final highlight.
\<close>

theorem sort_exit:
  "reachable v \<Longrightarrow>
   (\<exists>v'. insertion_sort callback stop_by v = Inr v' \<and> \<not> running v' \<and>
         (\<forall>k < length (data v). bar_fill v' k = Some ''#388e3c'')) \<and>
   (\<exists>v'. selection_sort callback stop_by v = Inr v' \<and> \<not> running v' \<and>
         (\<forall>k < length (data v). bar_fill v' k = Some ''#388e3c''))"
proof -
  assume "reachable v"
  then have l: "lockstep 0 (v\<lparr>running := True\<rparr>)"
    using reachable_lockstep by simp
  let ?n = "length (data v)"
  obtain v1 where v1: "insertion_for callback stop_by [1..<?n] (v\<lparr>running := True\<rparr>) = Inr v1"
      "lockstep 0 v1" "mset (data v1) = mset (data v)"
    using insertion_for_ok [OF l, of "[1..<?n]" callback stop_by] by auto
  obtain v2 where v2: "selection_for callback stop_by ?n [0..<?n] (v\<lparr>running := True\<rparr>) = Inr v2"
      "lockstep 0 v2" "mset (data v2) = mset (data v)"
    using selection_for_ok [OF l, of "[0..<?n]" ?n callback stop_by] by auto
  have n: "length (data v1) = ?n" "length (data v2) = ?n"
    using v1(3) v2(3) by (auto dest: mset_eq_length)
  have "insertion_sort callback stop_by v =
        Inr ((highlight (map int [0..<?n]) ''#388e3c'' v1)\<lparr>running := False\<rparr>)"
    using v1(1) by (simp add: insertion_sort_def bind_def)
  moreover have "selection_sort callback stop_by v =
        Inr ((highlight (map int [0..<?n]) ''#388e3c'' v2)\<lparr>running := False\<rparr>)"
    using v2(1) by (simp add: selection_sort_def bind_def)
  moreover have "bar_fill ((highlight (map int [0..<?n]) ''#388e3c'' v1)\<lparr>running := False\<rparr>) k
      = Some ''#388e3c''" if "k < ?n" for k
    using highlight_all [OF v1(2), where k = k and col = "''#388e3c''" and r = False] that n
    by simp
  moreover have "bar_fill ((highlight (map int [0..<?n]) ''#388e3c'' v2)\<lparr>running := False\<rparr>) k
      = Some ''#388e3c''" if "k < ?n" for k
    using highlight_all [OF v2(2), where k = k and col = "''#388e3c''" and r = False] that n
    by simp
  ultimately show ?thesis
    by simp
qed

text \<open>A run stopped at its first read of the flag: the rows stay in their unsorted
  order 30, 10, 20 and all three bars carry the final colour.\<close>

theorem sort_exit_witness:
  "reachable loaded \<and>
   (\<exists>v'. insertion_sort True (\<lambda>t. True) loaded = Inr v' \<and> \<not> running v' \<and>
         data v' = [row_a, row_b, row_c] \<and> bar_fill v' 0 = Some ''#388e3c'' \<and>
         bar_fill v' 1 = Some ''#388e3c'' \<and> bar_fill v' 2 = Some ''#388e3c'') \<and>
   (\<exists>v'. selection_sort True (\<lambda>t. True) loaded = Inr v' \<and> \<not> running v' \<and>
         data v' = [row_a, row_b, row_c] \<and> bar_fill v' 0 = Some ''#388e3c'' \<and>
         bar_fill v' 1 = Some ''#388e3c'' \<and> bar_fill v' 2 = Some ''#388e3c'')"
proof -
  have a: "map_sum id data (insertion_sort True (\<lambda>t. True) loaded) = Inr [row_a, row_b, row_c]"
    by (simp add: insertion_sort_def poll_def bind_def upt_conv_Cons loaded_lists)
  have b: "map_sum id data (selection_sort True (\<lambda>t. True) loaded) = Inr [row_a, row_b, row_c]"
    by (simp add: selection_sort_def poll_def bind_def upt_conv_Cons loaded_lists)
  show ?thesis
    using sort_exit [OF loaded_reachable, of True "\<lambda>t. True"] loaded_reachable a b
    by (auto simp: loaded_lists)
qed



end
